theory Spec2Isabelle
  imports Main "HOL-Library.Word"
begin

unbundle bit_operations_syntax

section \<open>The QOI decoder of pkg/qoi/decoder.go\<close>

text \<open>
  The decoder reads from an \<open>io.Reader\<close>, keeps its scratch bytes in one 8-byte buffer
  \<open>buf\<close> that every read reuses, and holds \<open>last\<close> and the 64 entries of \<open>seen\<close> as
  pointers (\<open>*[4]uint8\<close>): to the package variables \<open>startPixel\<close> and \<open>zeroPixel\<close> at first,
  later into the pixel storage \<open>img.Pix\<close> of the image under construction. The model keeps
  all of this: the reader is the list of its unread bytes, pointers are values of the type
  \<open>ptr\<close>, and the package variables and \<open>img.Pix\<close> are fields of the state that loads and
  stores go through.

  Go's \<open>int\<close> is taken to be 64 bits wide, so the \<open>uint32\<close> header fields convert to
  non-negative sizes. The limits of the runtime's allocator are not modelled: an image
  buffer whose length fits an \<open>int\<close> is allocated.

  Indexing never leaves its range in a run of the decoder, so the model has no branch for
  it: \<open>seen\<close> has 64 entries and is indexed by \<open>hashPix\<close>, which is below 64, and by an
  op-code byte whose top two bits are 00; the four bytes at \<open>PixOffset(x, y)\<close> lie inside
  \<open>img.Pix\<close> for every \<open>x\<close> and \<open>y\<close> the loops reach (lemmas \<open>hashPix_lt\<close>, \<open>index_lt\<close>,
  \<open>PixOffset_in_range\<close> and \<open>loopInv_reached\<close> below).
\<close>

type_synonym byte = "8 word"

subsection \<open>Errors\<close>

text \<open>
  \<open>EOF\<close> and \<open>ErrUnexpectedEOF\<close> are the errors of package \<open>io\<close>; the three \<open>Err...\<close>
  values of the package are wrapped by \<open>fmt.Errorf\<close> together with the offending bytes,
  which the constructors carry. \<open>PanicHugeDimensions\<close> is the panic of \<open>image.NewNRGBA\<close>
  for a rectangle whose buffer length does not fit an \<open>int\<close>.
\<close>

datatype error =
    EOF
  | ErrUnexpectedEOF
  | ErrInvalidMagic "byte list"
  | ErrInvalidRunLength byte
  | ErrInvalidEOF "byte list"
  | PanicHugeDimensions

text \<open>
  The specification has one error kind, UnexpectedEnd, for a source that is exhausted
  before a required read completed; the code returns the reader's own error there, which
  is one of the two \<open>io\<close> errors.
\<close>

definition UnexpectedEnd :: "error \<Rightarrow> bool" where
  "UnexpectedEnd e = (e = EOF \<or> e = ErrUnexpectedEOF)"

subsection \<open>Constants of the package\<close>

text \<open>
  The declarations of \<open>Magic\<close>, of the op-code tags and their mask, of \<open>eof\<close>, of the
  package variables \<open>startPixel\<close> and \<open>zeroPixel\<close> and of the function \<open>hashPix\<close> are not in
  decoder.go. The model gives them the values the specification states.
\<close>

text \<open>Modelled from the spec: \<open>Magic\<close>, the four bytes "qoif" at the start of the header.\<close>

definition Magic :: "byte list" where
  "Magic = [0x71, 0x6F, 0x69, 0x66]"

text \<open>
  Modelled from the spec: the op-code tags. A byte equal to 0xFE is an RGB and a byte equal
  to 0xFF an RGBA op-code; otherwise the top two bits, which \<open>op2Mask\<close> selects, tell
  INDEX (00), DIFF (01), LUMA (10) and RUN (11) apart.
\<close>

definition opRgb :: byte where "opRgb = 0xFE"
definition opRgba :: byte where "opRgba = 0xFF"
definition op2Mask :: byte where "op2Mask = 0xC0"
definition opIndex :: byte where "opIndex = 0x00"
definition opDiff :: byte where "opDiff = 0x40"
definition opLuma :: byte where "opLuma = 0x80"
definition opRun :: byte where "opRun = 0xC0"

text \<open>Modelled from the spec: \<open>eof\<close>, the end marker of seven 0x00 bytes and one 0x01 byte.\<close>

definition eof :: "byte list" where
  "eof = [0, 0, 0, 0, 0, 0, 0, 1]"

subsection \<open>Package variables, pointers and the decoder's state\<close>

text \<open>
  \<open>startPixel\<close> and \<open>zeroPixel\<close> are package-level arrays whose addresses the decoder
  takes, so they are part of the state a call of \<open>Decode\<close> runs in and leaves behind.
\<close>

record globals =
  startPixel :: "byte list"
  zeroPixel :: "byte list"

text \<open>
  Modelled from the spec: the initial values of the two package variables, the start
  pixel (0,0,0,255) and the zero pixel (0,0,0,0).
\<close>

definition initGlobals :: globals where
  "initGlobals = \<lparr>startPixel = [0, 0, 0, 255], zeroPixel = [0, 0, 0, 0]\<rparr>"

text \<open>
  A \<open>*[4]uint8\<close> of the decoder is \<open>&startPixel\<close>, \<open>&zeroPixel\<close>, or the four bytes of
  \<open>img.Pix\<close> that start at an offset.
\<close>

datatype ptr = AddrStartPixel | AddrZeroPixel | AddrPix nat

record Config =
  Width :: nat
  Height :: nat

text \<open>
  The state of \<open>decodePixels\<close>: the package variables, the unread bytes of the reader
  \<open>r\<close>, and the locals \<open>buf\<close>, \<open>last\<close> (here \<open>lastp\<close>), \<open>run\<close>, \<open>seen\<close> and the byte slice
  \<open>img.Pix\<close> (here \<open>imgPix\<close>).
\<close>

record dstate =
  glob :: globals
  rd :: "byte list"
  buf :: "byte list"
  lastp :: ptr
  run :: byte
  seen :: "ptr list"
  imgPix :: "byte list"

text \<open>The result image, an \<open>image.NRGBA\<close>: pixel bytes, stride and bounds (min, max).\<close>

record NRGBA =
  Pix :: "byte list"
  Stride :: nat
  Rect :: "(nat \<times> nat) \<times> (nat \<times> nat)"

text \<open>\<open>p[k]\<close> for a pointer \<open>p\<close>, and \<open>pix[k] = v\<close> for the pixel at offset \<open>off\<close>.\<close>

fun ld :: "dstate \<Rightarrow> ptr \<Rightarrow> nat \<Rightarrow> byte" where
  "ld s AddrStartPixel k = startPixel (glob s) ! k"
| "ld s AddrZeroPixel k = zeroPixel (glob s) ! k"
| "ld s (AddrPix off) k = imgPix s ! (off + k)"

definition st :: "nat \<Rightarrow> nat \<Rightarrow> byte \<Rightarrow> dstate \<Rightarrow> dstate" where
  "st off k v s = s\<lparr>imgPix := (imgPix s)[off + k := v]\<rparr>"

text \<open>
  Modelled from the spec: \<open>hashPix\<close>, the slot of a pixel in the history cache,
  (r*3 + g*5 + b*7 + a*11) mod 64 of the four bytes its argument points to.
\<close>

definition hashPix :: "dstate \<Rightarrow> ptr \<Rightarrow> nat" where
  "hashPix s p =
     (unat (ld s p 0) * 3 + unat (ld s p 1) * 5 + unat (ld s p 2) * 7 + unat (ld s p 3) * 11) mod 64"

subsection \<open>Reading\<close>

text \<open>
  \<open>r.Read(buf[lo:hi])\<close> on a reader over a byte sequence (\<open>bytes.Reader\<close>): at the end of
  the input it returns \<open>io.EOF\<close>; otherwise it copies as many bytes as are there, at most
  \<open>hi - lo\<close>, and returns no error, also when they are fewer than asked for. The bytes of
  \<open>buf\<close> it does not reach keep their old values.
\<close>

definition Read :: "nat \<Rightarrow> nat \<Rightarrow> dstate \<Rightarrow> error option \<times> dstate" where
  "Read lo hi s =
     (if rd s = [] then (Some EOF, s)
      else let n = min (hi - lo) (length (rd s))
           in (None, s\<lparr>buf := take lo (buf s) @ take n (rd s) @ drop (lo + n) (buf s),
                        rd := drop n (rd s)\<rparr>))"

text \<open>
  \<open>io.ReadAtLeast(r, buf, n)\<close> with \<open>len(buf) = n\<close>: it reads until it has \<open>n\<close> bytes; a
  reader that ends before yields \<open>io.EOF\<close> when it gave no byte at all and
  \<open>io.ErrUnexpectedEOF\<close> otherwise, and is left at its end.
\<close>

definition ReadAtLeast :: "nat \<Rightarrow> byte list \<Rightarrow> (error + byte list) \<times> byte list" where
  "ReadAtLeast n r =
     (if n \<le> length r then (Inr (take n r), drop n r)
      else (Inl (if r = [] then EOF else ErrUnexpectedEOF), []))"

text \<open>\<open>binary.BigEndian.Uint32\<close> of four bytes.\<close>

definition Uint32 :: "byte list \<Rightarrow> 32 word" where
  "Uint32 b = ucast (b ! 3) OR push_bit 8 (ucast (b ! 2)) OR push_bit 16 (ucast (b ! 1))
                OR push_bit 24 (ucast (b ! 0))"

subsection \<open>DecodeConfig\<close>

definition DecodeConfig :: "byte list \<Rightarrow> (error + Config) \<times> byte list" where
  "DecodeConfig r =
     (case ReadAtLeast 14 r of
        (Inl e, r') \<Rightarrow> (Inl e, r')
      | (Inr b, r') \<Rightarrow>
          if take 4 b \<noteq> Magic then (Inl (ErrInvalidMagic (take 4 b)), r')
          else (Inr \<lparr>Width = unat (Uint32 (take 4 (drop 4 b))),
                     Height = unat (Uint32 (take 4 (drop 8 b)))\<rparr>, r'))"

subsection \<open>The body of the pixel loops\<close>

text \<open>The four assignments \<open>pix[k] = q[k]\<close>, in the order of the source.\<close>

definition copyPix :: "nat \<Rightarrow> ptr \<Rightarrow> dstate \<Rightarrow> dstate" where
  "copyPix off q s =
     (let s = st off 0 (ld s q 0) s;
          s = st off 1 (ld s q 1) s;
          s = st off 2 (ld s q 2) s;
          s = st off 3 (ld s q 3) s
      in s)"

text \<open>The run continuation at the head of the loop body (\<open>if run > 0\<close>).\<close>

definition contRun :: "nat \<Rightarrow> dstate \<Rightarrow> error option \<times> dstate" where
  "contRun off s =
     (let s = s\<lparr>run := run s - 1\<rparr>
      in (None, copyPix off (lastp s) s))"

text \<open>
  The bodies of the six cases of the \<open>switch\<close>, each entered with the op-code byte
  in \<open>buf[0]\<close>.
\<close>

definition caseRgb :: "nat \<Rightarrow> dstate \<Rightarrow> error option \<times> dstate" where
  "caseRgb off s =
     (case Read 1 4 s of
        (Some e, s) \<Rightarrow> (Some e, s)
      | (None, s) \<Rightarrow>
          let s = st off 0 (buf s ! 1) s;
              s = st off 1 (buf s ! 2) s;
              s = st off 2 (buf s ! 3) s;
              s = st off 3 (ld s (lastp s) 3) s;
              s = s\<lparr>seen := (seen s)[hashPix s (AddrPix off) := AddrPix off]\<rparr>
          in (None, s\<lparr>lastp := AddrPix off\<rparr>))"

definition caseRgba :: "nat \<Rightarrow> dstate \<Rightarrow> error option \<times> dstate" where
  "caseRgba off s =
     (case Read 1 5 s of
        (Some e, s) \<Rightarrow> (Some e, s)
      | (None, s) \<Rightarrow>
          let s = st off 0 (buf s ! 1) s;
              s = st off 1 (buf s ! 2) s;
              s = st off 2 (buf s ! 3) s;
              s = st off 3 (buf s ! 4) s;
              s = s\<lparr>seen := (seen s)[hashPix s (AddrPix off) := AddrPix off]\<rparr>
          in (None, s\<lparr>lastp := AddrPix off\<rparr>))"

definition caseIndex :: "nat \<Rightarrow> dstate \<Rightarrow> error option \<times> dstate" where
  "caseIndex off s =
     (let q = seen s ! unat (buf s ! 0);
          s = copyPix off q s
      in (None, s\<lparr>lastp := AddrPix off\<rparr>))"

definition caseDiff :: "nat \<Rightarrow> dstate \<Rightarrow> error option \<times> dstate" where
  "caseDiff off s =
     (let s = st off 0 (ld s (lastp s) 0 + (drop_bit 4 (buf s ! 0) AND 0x3) - 2) s;
          s = st off 1 (ld s (lastp s) 1 + (drop_bit 2 (buf s ! 0) AND 0x3) - 2) s;
          s = st off 2 (ld s (lastp s) 2 + (drop_bit 0 (buf s ! 0) AND 0x3) - 2) s;
          s = st off 3 (ld s (lastp s) 3) s;
          s = s\<lparr>seen := (seen s)[hashPix s (AddrPix off) := AddrPix off]\<rparr>
      in (None, s\<lparr>lastp := AddrPix off\<rparr>))"

definition caseLuma :: "nat \<Rightarrow> dstate \<Rightarrow> error option \<times> dstate" where
  "caseLuma off s =
     (case Read 1 2 s of
        (Some e, s) \<Rightarrow> (Some e, s)
      | (None, s) \<Rightarrow>
          let dg = (buf s ! 0 AND 0x3F) - 32;
              dr = drop_bit 4 (buf s ! 1 AND 0xF0) - 8 + dg;
              db = drop_bit 0 (buf s ! 1 AND 0x0F) - 8 + dg;
              s = st off 0 (ld s (lastp s) 0 + dr) s;
              s = st off 1 (ld s (lastp s) 1 + dg) s;
              s = st off 2 (ld s (lastp s) 2 + db) s;
              s = st off 3 (ld s (lastp s) 3) s;
              s = s\<lparr>seen := (seen s)[hashPix s (AddrPix off) := AddrPix off]\<rparr>
          in (None, s\<lparr>lastp := AddrPix off\<rparr>))"

definition caseRun :: "nat \<Rightarrow> dstate \<Rightarrow> error option \<times> dstate" where
  "caseRun off s =
     (let s = s\<lparr>run := (buf s ! 0 AND 0x3F) + 1\<rparr>
      in if 62 < run s \<or> run s < 1 then (Some (ErrInvalidRunLength (run s)), s)
         else let s = s\<lparr>run := run s - 1\<rparr>
              in (None, copyPix off (lastp s) s))"

text \<open>
  One pass through the body of the inner loop, for the pixel whose bytes start at \<open>off\<close>
  in \<open>img.Pix\<close>: the run continuation, or the read of an op-code byte and the \<open>switch\<close>
  on it, whose cases are tried in the order of the source. The \<open>switch\<close> has no default
  case: a byte that no case matched would leave the state as it is.
\<close>

definition decodePixel :: "nat \<Rightarrow> dstate \<Rightarrow> error option \<times> dstate" where
  "decodePixel off s =
     (if 0 < run s then contRun off s
      else
        case Read 0 1 s of
          (Some e, s) \<Rightarrow> (Some e, s)
        | (None, s) \<Rightarrow>
            if buf s ! 0 = opRgb then caseRgb off s
            else if buf s ! 0 = opRgba then caseRgba off s
            else if buf s ! 0 AND op2Mask = opIndex then caseIndex off s
            else if buf s ! 0 AND op2Mask = opDiff then caseDiff off s
            else if buf s ! 0 AND op2Mask = opLuma then caseLuma off s
            else if buf s ! 0 AND op2Mask = opRun then caseRun off s
            else (None, s))"

subsection \<open>The loops and the end marker\<close>

text \<open>\<open>img.PixOffset(x, y)\<close>, for the bounds (0,0)-(Width,Height) and the stride 4 * Width.\<close>

definition PixOffset :: "Config \<Rightarrow> nat \<Rightarrow> nat \<Rightarrow> nat" where
  "PixOffset conf x y = y * (4 * Width conf) + x * 4"

text \<open>The inner loop, \<open>for x < conf.Width\<close>, entered at \<open>x\<close>.\<close>

function rowLoop :: "Config \<Rightarrow> nat \<Rightarrow> nat \<Rightarrow> dstate \<Rightarrow> error option \<times> dstate" where
  "rowLoop conf y x s =
     (if x < Width conf then
        (case decodePixel (PixOffset conf x y) s of
           (Some e, s') \<Rightarrow> (Some e, s')
         | (None, s') \<Rightarrow> rowLoop conf y (x + 1) s')
      else (None, s))"
  by pat_completeness auto
termination
  by (relation "measure (\<lambda>(conf, y, x, s). Width conf - x)") auto

text \<open>The outer loop, \<open>for y < conf.Height\<close>, entered at \<open>y\<close>.\<close>

function imgLoop :: "Config \<Rightarrow> nat \<Rightarrow> dstate \<Rightarrow> error option \<times> dstate" where
  "imgLoop conf y s =
     (if y < Height conf then
        (case rowLoop conf y 0 s of
           (Some e, s') \<Rightarrow> (Some e, s')
         | (None, s') \<Rightarrow> imgLoop conf (y + 1) s')
      else (None, s))"
  by pat_completeness auto
termination
  by (relation "measure (\<lambda>(conf, y, s). Height conf - y)") auto

declare rowLoop.simps [simp del] imgLoop.simps [simp del]

text \<open>
  The state before the loops: \<open>image.NewNRGBA\<close> gives 4 * Width * Height zero bytes,
  \<open>last\<close> points to \<open>startPixel\<close>, all of \<open>seen\<close> to \<open>zeroPixel\<close>.
\<close>

definition initState :: "globals \<Rightarrow> byte list \<Rightarrow> Config \<Rightarrow> dstate" where
  "initState g r conf =
     \<lparr>glob = g, rd = r, buf = replicate 8 0, lastp = AddrStartPixel, run = 0,
      seen = replicate 64 AddrZeroPixel,
      imgPix = replicate (4 * Width conf * Height conf) 0\<rparr>"

text \<open>The check of the end marker after the loops, and the result.\<close>

definition checkEOF :: "Config \<Rightarrow> dstate \<Rightarrow> (error + NRGBA) \<times> byte list \<times> globals" where
  "checkEOF conf s =
     (case Read 0 8 s of
        (Some e, s) \<Rightarrow> (Inl e, rd s, glob s)
      | (None, s) \<Rightarrow>
          if buf s \<noteq> eof then (Inl (ErrInvalidEOF (buf s)), rd s, glob s)
          else (Inr \<lparr>Pix = imgPix s, Stride = 4 * Width conf,
                     Rect = ((0, 0), (Width conf, Height conf))\<rparr>, rd s, glob s))"

text \<open>
  \<open>decodePixels\<close>. Its result is the returned pair as a sum, together with what the call
  leaves behind: the unread bytes of the reader and the package variables.
  \<open>image.NewNRGBA\<close> panics when 4 * Width * Height does not fit a non-negative \<open>int\<close>.
\<close>

definition decodePixels :: "globals \<Rightarrow> byte list \<Rightarrow> Config \<Rightarrow> (error + NRGBA) \<times> byte list \<times> globals" where
  "decodePixels g r conf =
     (if 2 ^ 63 \<le> 4 * Width conf * Height conf then (Inl PanicHugeDimensions, r, g)
      else case imgLoop conf 0 (initState g r conf) of
             (Some e, s) \<Rightarrow> (Inl e, rd s, glob s)
           | (None, s) \<Rightarrow> checkEOF conf s)"

definition Decode :: "globals \<Rightarrow> byte list \<Rightarrow> (error + NRGBA) \<times> byte list \<times> globals" where
  "Decode g r =
     (case DecodeConfig r of
        (Inl e, r') \<Rightarrow> (Inl e, r', g)
      | (Inr conf, r') \<Rightarrow> decodePixels g r' conf)"

subsection \<open>A reader that delivers its bytes in pieces\<close>

text \<open>
  An \<open>io.Reader\<close> need not hand out all the bytes a call of \<open>Read\<close> asks for, also before
  the end of its input: a \<open>bufio.Reader\<close> hands out what its buffer holds, a network
  connection what has arrived. Such a reader is the list of the pieces it will deliver. A
  call of \<open>Read\<close> takes bytes from one piece only, at most as many as it asks for; what it
  leaves of the piece is there for the next call; after the last piece the reader returns
  \<open>io.EOF\<close>. The readers meant here never return zero bytes without an error, so empty
  pieces are passed over. The reader of the sections above, a \<open>bytes.Reader\<close> over the
  bytes \<open>bs\<close>, is the single piece \<open>[bs]\<close> (lemma \<open>Decode_pieces_one\<close> below).

  The decoder on such a reader is the code of the sections above with every call of
  \<open>r.Read\<close> made on the piece at hand: the field \<open>rd\<close> of the state holds what is unread
  of that piece, and the pieces after it are carried along.
\<close>

type_synonym pieces = "byte list list"

text \<open>Before a call of \<open>r.Read\<close>: a piece that is used up gives way to the next one.\<close>

definition nextPiece :: "pieces \<Rightarrow> dstate \<Rightarrow> pieces \<times> dstate" where
  "nextPiece q s =
     (if rd s \<noteq> [] then (q, s)
      else case dropWhile (\<lambda>c. c = []) q of
             [] \<Rightarrow> ([], s)
           | c # q' \<Rightarrow> (q', s\<lparr>rd := c\<rparr>))"

text \<open>
  \<open>onPiece f\<close> runs a stretch of code \<open>f\<close> that starts with its one call of \<open>r.Read\<close>;
  \<open>keepPieces\<close> is for a stretch that does not read.
\<close>

definition onPiece ::
  "(dstate \<Rightarrow> error option \<times> dstate) \<Rightarrow> pieces \<Rightarrow> dstate \<Rightarrow> error option \<times> pieces \<times> dstate" where
  "onPiece f q s =
     (case nextPiece q s of
        (q', s') \<Rightarrow> (case f s' of (e, s'') \<Rightarrow> (e, q', s'')))"

definition keepPieces :: "pieces \<Rightarrow> error option \<times> dstate \<Rightarrow> error option \<times> pieces \<times> dstate" where
  "keepPieces q r = (fst r, q, snd r)"

text \<open>
  The loop body. The RGB, RGBA and LUMA cases start with their call of \<open>r.Read\<close> and make
  no other; the run continuation and the INDEX, DIFF and RUN cases do not read.
\<close>

definition decodePixel_pieces ::
  "nat \<Rightarrow> pieces \<Rightarrow> dstate \<Rightarrow> error option \<times> pieces \<times> dstate" where
  "decodePixel_pieces off q s =
     (if 0 < run s then keepPieces q (contRun off s)
      else
        case onPiece (Read 0 1) q s of
          (Some e, q, s) \<Rightarrow> (Some e, q, s)
        | (None, q, s) \<Rightarrow>
            if buf s ! 0 = opRgb then onPiece (caseRgb off) q s
            else if buf s ! 0 = opRgba then onPiece (caseRgba off) q s
            else if buf s ! 0 AND op2Mask = opIndex then keepPieces q (caseIndex off s)
            else if buf s ! 0 AND op2Mask = opDiff then keepPieces q (caseDiff off s)
            else if buf s ! 0 AND op2Mask = opLuma then onPiece (caseLuma off) q s
            else if buf s ! 0 AND op2Mask = opRun then keepPieces q (caseRun off s)
            else (None, q, s))"

function rowLoop_pieces ::
  "Config \<Rightarrow> nat \<Rightarrow> nat \<Rightarrow> pieces \<Rightarrow> dstate \<Rightarrow> error option \<times> pieces \<times> dstate" where
  "rowLoop_pieces conf y x q s =
     (if x < Width conf then
        (case decodePixel_pieces (PixOffset conf x y) q s of
           (Some e, q', s') \<Rightarrow> (Some e, q', s')
         | (None, q', s') \<Rightarrow> rowLoop_pieces conf y (x + 1) q' s')
      else (None, q, s))"
  by pat_completeness auto
termination
  by (relation "measure (\<lambda>(conf, y, x, q, s). Width conf - x)") auto

function imgLoop_pieces ::
  "Config \<Rightarrow> nat \<Rightarrow> pieces \<Rightarrow> dstate \<Rightarrow> error option \<times> pieces \<times> dstate" where
  "imgLoop_pieces conf y q s =
     (if y < Height conf then
        (case rowLoop_pieces conf y 0 q s of
           (Some e, q', s') \<Rightarrow> (Some e, q', s')
         | (None, q', s') \<Rightarrow> imgLoop_pieces conf (y + 1) q' s')
      else (None, q, s))"
  by pat_completeness auto
termination
  by (relation "measure (\<lambda>(conf, y, q, s). Height conf - y)") auto

declare rowLoop_pieces.simps [simp del] imgLoop_pieces.simps [simp del]

text \<open>
  \<open>decodePixels\<close>, as far as its returned pair goes. No piece is at hand when it starts;
  the check of the end marker starts with its call of \<open>r.Read\<close>.
\<close>

definition decodePixels_pieces :: "globals \<Rightarrow> pieces \<Rightarrow> Config \<Rightarrow> error + NRGBA" where
  "decodePixels_pieces g q conf =
     (if 2 ^ 63 \<le> 4 * Width conf * Height conf then Inl PanicHugeDimensions
      else case imgLoop_pieces conf 0 q (initState g [] conf) of
             (Some e, q', s) \<Rightarrow> Inl e
           | (None, q', s) \<Rightarrow> (case nextPiece q' s of (q'', s') \<Rightarrow> fst (checkEOF conf s')))"

text \<open>
  The loop of \<open>io.ReadAtLeast(r, buf, n)\<close>: it calls \<open>r.Read\<close> for the bytes it still
  lacks until it has \<open>n\<close> bytes or the reader is at its end. The result is the bytes it got
  and the pieces it left.
\<close>

fun readPieces :: "nat \<Rightarrow> pieces \<Rightarrow> byte list \<times> pieces" where
  "readPieces n [] = ([], [])"
| "readPieces n (c # q) =
     (if n \<le> length c then (take n c, drop n c # q)
      else case readPieces (n - length c) q of (bs, q') \<Rightarrow> (c @ bs, q'))"

text \<open>
  \<open>DecodeConfig\<close>: the header bytes that \<open>io.ReadAtLeast\<close> gets out of the pieces are
  checked and parsed as \<open>DecodeConfig\<close> above does it, which also gives the two errors of
  \<open>io.ReadAtLeast\<close> when they are fewer than 14.
\<close>

definition DecodeConfig_pieces :: "pieces \<Rightarrow> (error + Config) \<times> pieces" where
  "DecodeConfig_pieces q =
     (case readPieces 14 q of (b, q') \<Rightarrow> (fst (DecodeConfig b), q'))"

definition Decode_pieces :: "globals \<Rightarrow> pieces \<Rightarrow> error + NRGBA" where
  "Decode_pieces g q =
     (case DecodeConfig_pieces q of
        (Inl e, q') \<Rightarrow> Inl e
      | (Inr conf, q') \<Rightarrow> decodePixels_pieces g q' conf)"

section \<open>Notions for the proofs\<close>

text \<open>
  The two loops visit the pixels in the order of their offsets, so they amount to one
  iteration over the pixel indices: \<open>steps n i\<close> runs the loop body for the \<open>n\<close> pixels from
  index \<open>i\<close> on (lemmas \<open>rowLoop_steps\<close> and \<open>imgLoop_steps\<close>).
\<close>

fun steps :: "nat \<Rightarrow> nat \<Rightarrow> dstate \<Rightarrow> error option \<times> dstate" where
  "steps 0 i s = (None, s)"
| "steps (Suc n) i s =
     (case decodePixel (4 * i) s of
        (Some e, s') \<Rightarrow> (Some e, s')
      | (None, s') \<Rightarrow> steps n (Suc i) s')"

text \<open>The pixel a pointer points to, and the history cache as the 64 pixels it holds.\<close>

definition pixAt :: "dstate \<Rightarrow> ptr \<Rightarrow> byte list" where
  "pixAt s p = [ld s p 0, ld s p 1, ld s p 2, ld s p 3]"

definition cache :: "dstate \<Rightarrow> byte list list" where
  "cache s = map (pixAt s) (seen s)"

text \<open>
  \<open>sep p off\<close>: the pointer \<open>p\<close> points to a package variable or to a pixel of \<open>img.Pix\<close>
  that ends at or before \<open>off\<close>, so no store to the pixel at \<open>off\<close> changes what it points
  to. \<open>loopInv off s\<close> is what holds whenever the loop body is entered for the pixel at
  \<open>off\<close>: the buffer and \<open>seen\<close> have their lengths, the pixel lies inside \<open>img.Pix\<close>, and
  \<open>last\<close> and all of \<open>seen\<close> point to package variables or to pixels decoded before.
\<close>

definition sep :: "ptr \<Rightarrow> nat \<Rightarrow> bool" where
  "sep p off = (case p of AddrPix a \<Rightarrow> a + 4 \<le> off | _ \<Rightarrow> True)"

definition loopInv :: "nat \<Rightarrow> dstate \<Rightarrow> bool" where
  "loopInv off s =
     (length (buf s) = 8 \<and> length (seen s) = 64 \<and> off + 4 \<le> length (imgPix s)
      \<and> sep (lastp s) off \<and> (\<forall>p \<in> set (seen s). sep p off))"

text \<open>
  What one pass of the loop body for the pixel at \<open>off\<close> leaves alone (\<open>stepFrame\<close>), and
  with which outcome it can end (\<open>stepOk\<close>): without error, or with the reader's \<open>EOF\<close>.
\<close>

definition stepFrame :: "nat \<Rightarrow> dstate \<Rightarrow> dstate \<Rightarrow> bool" where
  "stepFrame off s s' =
     (glob s' = glob s \<and> length (imgPix s') = length (imgPix s) \<and> length (seen s') = length (seen s)
      \<and> (length (buf s) = 8 \<longrightarrow> length (buf s') = 8 \<and> buf s' ! 7 = buf s ! 7)
      \<and> (\<forall>j. j < off \<or> off + 4 \<le> j \<longrightarrow> imgPix s' ! j = imgPix s ! j)
      \<and> (lastp s' = lastp s \<or> lastp s' = AddrPix off)
      \<and> set (seen s') \<subseteq> insert (AddrPix off) (set (seen s)))"

definition stepOk :: "nat \<Rightarrow> dstate \<Rightarrow> error option \<times> dstate \<Rightarrow> bool" where
  "stepOk off s r = (stepFrame off s (snd r) \<and> (fst r = None \<or> fst r = Some EOF))"

text \<open>
  \<open>onePiece q s t\<close>: the reader in pieces \<open>q\<close> with the state \<open>s\<close> stands for a reader of
  one piece, whose decoder state is \<open>t\<close>. Either no piece is left to come and the states
  are the same, or the one piece has not been touched yet.
\<close>

definition onePiece :: "pieces \<Rightarrow> dstate \<Rightarrow> dstate \<Rightarrow> bool" where
  "onePiece q s t =
     ((q = [] \<and> s = t) \<or> (rd s = [] \<and> run s = 0 \<and> (\<exists>c. q = [c] \<and> t = s\<lparr>rd := c\<rparr>)))"

section \<open>Evaluation on concrete streams\<close>

lemma replicate_numeral: "replicate (numeral v) x = x # replicate (numeral v - 1) x"
  by (simp add: numeral_eq_Suc)

lemma list_update_Cons_numeral: "(x # xs)[numeral v := y] = x # xs[numeral v - 1 := y]"
  by (simp add: numeral_eq_Suc)

lemmas consts_defs =
  Magic_def opRgb_def opRgba_def op2Mask_def opIndex_def opDiff_def opLuma_def opRun_def eof_def

lemmas run_defs =
  Decode_def DecodeConfig_def ReadAtLeast_def Uint32_def decodePixels_def initState_def
  imgLoop.simps rowLoop.simps decodePixel_def Read_def st_def copyPix_def hashPix_def
  PixOffset_def checkEOF_def contRun_def caseRgb_def caseRgba_def caseIndex_def caseDiff_def
  caseLuma_def caseRun_def Let_def replicate_numeral list_update_Cons_numeral

section \<open>Facts about op-code bytes\<close>

lemma and_3F_unat: "unat ((b::byte) AND 0x3F) = unat b mod 64"
proof -
  have "(b AND 0x3F) = take_bit 6 b"
    by (simp add: take_bit_eq_mask mask_eq_exp_minus_1)
  then show ?thesis
    by (simp add: unsigned_take_bit_eq take_bit_eq_mod unat_mod)
qed

lemma split_byte: "(b::byte) = (b AND 0xC0) + (b AND 0x3F)"
proof -
  have "(b AND 0xC0) AND (b AND 0x3F) = b AND (0xC0 AND 0x3F)"
    by (simp only: ac_simps and.idem and.left_idem)
  then have "(b AND 0xC0) AND (b AND 0x3F) = 0" by simp
  then have "(b AND 0xC0) + (b AND 0x3F) = (b AND 0xC0) OR (b AND 0x3F)"
    by (rule disjunctive_add_eq_or)
  also have "\<dots> = b AND (0xC0 OR 0x3F)"
    by (simp only: bit.conj_disj_distrib)
  also have "\<dots> = b"
  proof -
    have "(0xC0 OR 0x3F :: byte) = - 1" by simp
    then show ?thesis by (simp only: and.right_neutral)
  qed
  finally show ?thesis by simp
qed

lemma unat_split_byte: "unat (b::byte) = unat (b AND 0xC0) + unat b mod 64"
proof -
  have "unat (b AND 0xC0) \<le> unat (0xC0::byte)"
    by (rule word_and_le1 [THEN word_le_nat_alt [THEN iffD1]])
  then have lt: "unat (b AND 0xC0) + unat (b AND 0x3F) < 256"
    by (simp add: and_3F_unat)
  have "unat b = unat ((b AND 0xC0) + (b AND 0x3F))" using split_byte[of b] by simp
  also have "\<dots> = unat (b AND 0xC0) + unat (b AND 0x3F)"
    using lt by (simp add: unat_add_lem[THEN iffD1])
  finally show ?thesis by (simp add: and_3F_unat)
qed

lemma mod64_lt: "(n::nat) mod 64 < 64"
  by simp

lemma byte_quarter:
  "unat (b::byte) div 64 = 0 \<or> unat b div 64 = 1 \<or> unat b div 64 = 2 \<or> unat b div 64 = 3"
proof -
  have "unat b < 256" using unsigned_less[of b] by simp
  then have "unat b div 64 < 4" by (simp add: less_mult_imp_div_less)
  then show ?thesis by linarith
qed


text \<open>
  A byte that gets as far as the RUN case has a run length between 1 and 62: the condition
  of the error branch is false.
\<close>

lemma run_len:
  assumes "b AND op2Mask = opRun" "b \<noteq> opRgb" "b \<noteq> opRgba"
  shows "\<not> (62 < (b AND 0x3F) + 1 \<or> (b AND 0x3F) + 1 < 1)"
proof -
  have u: "unat b = 192 + unat b mod 64"
    using unat_split_byte[of b] assms(1) by (simp add: consts_defs)
  have "unat b \<noteq> 254" "unat b \<noteq> 255"
    using assms(2,3) by (auto simp: consts_defs word_unat_eq_iff)
  with u mod64_lt[of "unat b"] have "unat b mod 64 \<le> 61" by linarith
  then show ?thesis
    by (simp add: word_less_nat_alt word_le_nat_alt unat_word_ariths and_3F_unat)
qed

text \<open>An INDEX byte is its own low six bits and a valid index into \<open>seen\<close>.\<close>

lemma index_lt:
  assumes "b AND op2Mask = opIndex"
  shows "unat b < 64"
proof -
  have "unat b = unat b mod 64"
    using unat_split_byte[of b] assms(1) by (simp add: consts_defs)
  then show ?thesis using mod64_lt[of "unat b"] by linarith
qed

lemma index_and:
  assumes "b AND op2Mask = opIndex"
  shows "b AND 0x3F = b"
  using split_byte[of b] assms by (simp add: consts_defs)

lemma low6_all_ones:
  assumes "(b::byte) AND 0x3F = 0x3F"
  shows "b = 0x3F \<or> b = 0x7F \<or> b = 0xBF \<or> b = 0xFF"
proof -
  have m: "unat b mod 64 = 63" using and_3F_unat[of b] assms by simp
  have e: "unat b = 64 * (unat b div 64) + unat b mod 64" by simp
  with m byte_quarter[of b]
  have "unat b = 63 \<or> unat b = 127 \<or> unat b = 191 \<or> unat b = 255" by linarith
  then show ?thesis by (auto simp: word_unat_eq_iff)
qed

lemma luma_nib: "drop_bit 4 ((b::byte) AND 0xF0) = drop_bit 4 b AND 0xF"
  by (simp add: bit_eq_iff bit_simps)

lemma hashPix_lt: "hashPix s p < 64"
  by (simp add: hashPix_def)

section \<open>The loops as one iteration\<close>

lemma steps_add:
  "steps (a + b) i s =
     (case steps a i s of (Some e, s') \<Rightarrow> (Some e, s') | (None, s') \<Rightarrow> steps b (i + a) s')"
  by (induction a arbitrary: i s) (auto split: prod.splits option.splits)

lemma PixOffset_flat: "PixOffset conf x y = 4 * (y * Width conf + x)"
  by (simp add: PixOffset_def algebra_simps)

lemma PixOffset_in_range:
  assumes "x < Width conf" "y < Height conf"
  shows "PixOffset conf x y + 4 \<le> 4 * Width conf * Height conf"
proof -
  have "y * Width conf + x < y * Width conf + Width conf" using assms(1) by simp
  also have "\<dots> = Suc y * Width conf" by simp
  also have "\<dots> \<le> Height conf * Width conf"
    using assms(2) by (intro mult_le_mono1) simp
  finally have "y * Width conf + x + 1 \<le> Width conf * Height conf"
    by (simp add: mult.commute)
  then show ?thesis unfolding PixOffset_flat by simp
qed

lemma rowLoop_steps:
  "rowLoop conf y x s = steps (Width conf - x) (y * Width conf + x) s"
proof (induction conf y x s rule: rowLoop.induct)
  case (1 conf y x s)
  show ?case
  proof (cases "x < Width conf")
    case True
    then have w: "Width conf - x = Suc (Width conf - (x + 1))" by simp
    show ?thesis
      using True "1.IH"
      by (subst rowLoop.simps, subst w) (auto simp: PixOffset_flat split: prod.splits option.splits)
  next
    case False
    then show ?thesis by (subst rowLoop.simps) simp
  qed
qed

lemma imgLoop_steps:
  "imgLoop conf y s = steps ((Height conf - y) * Width conf) (y * Width conf) s"
proof (induction conf y s rule: imgLoop.induct)
  case (1 conf y s)
  show ?case
  proof (cases "y < Height conf")
    case True
    then have "Height conf - y = Suc (Height conf - (y + 1))" by simp
    then have h: "(Height conf - y) * Width conf
                    = Width conf + (Height conf - (y + 1)) * Width conf"
      by simp
    show ?thesis
      using True "1.IH"
      by (subst imgLoop.simps, subst h, subst steps_add)
         (auto simp: rowLoop_steps algebra_simps split: prod.splits option.splits)
  next
    case False
    then show ?thesis by (subst imgLoop.simps) simp
  qed
qed

section \<open>What a pass of the loop body leaves alone\<close>

lemma st_fields [simp]:
  "glob (st off k v s) = glob s" "rd (st off k v s) = rd s" "buf (st off k v s) = buf s"
  "lastp (st off k v s) = lastp s" "run (st off k v s) = run s" "seen (st off k v s) = seen s"
  "imgPix (st off k v s) = (imgPix s)[off + k := v]"
  by (simp_all add: st_def)

lemma copyPix_fields [simp]:
  "glob (copyPix off q s) = glob s" "rd (copyPix off q s) = rd s"
  "buf (copyPix off q s) = buf s" "lastp (copyPix off q s) = lastp s"
  "run (copyPix off q s) = run s" "seen (copyPix off q s) = seen s"
  "length (imgPix (copyPix off q s)) = length (imgPix s)"
  by (simp_all add: copyPix_def Let_def)

lemma stepFrame_refl: "stepFrame off s s"
  by (auto simp: stepFrame_def)

lemma stepFrame_st: "stepFrame off s t \<Longrightarrow> k < 4 \<Longrightarrow> stepFrame off s (st off k v t)"
  by (auto simp: stepFrame_def)

lemma stepFrame_seen:
  assumes "stepFrame off s t"
  shows "stepFrame off s (t\<lparr>seen := (seen t)[h := AddrPix off]\<rparr>)"
proof -
  have "set ((seen t)[h := AddrPix off]) \<subseteq> insert (AddrPix off) (set (seen t))"
    by (rule set_update_subset_insert)
  with assms show ?thesis unfolding stepFrame_def by auto
qed

lemma stepFrame_lastp: "stepFrame off s t \<Longrightarrow> stepFrame off s (t\<lparr>lastp := AddrPix off\<rparr>)"
  by (auto simp: stepFrame_def)

lemma stepFrame_run: "stepFrame off s t \<Longrightarrow> stepFrame off s (t\<lparr>run := v\<rparr>)"
  by (auto simp: stepFrame_def)

lemma stepFrame_copyPix: "stepFrame off s t \<Longrightarrow> stepFrame off s (copyPix off q t)"
  unfolding copyPix_def Let_def by (intro stepFrame_st) simp_all

lemma stepFrame_Read:
  "stepFrame off s t \<Longrightarrow> lo \<le> hi \<Longrightarrow> hi \<le> 7 \<Longrightarrow> stepFrame off s (snd (Read lo hi t))"
  by (auto simp: stepFrame_def Read_def Let_def nth_append min_def)

lemmas stepFrame_intros =
  stepFrame_lastp stepFrame_seen stepFrame_st stepFrame_run stepFrame_copyPix stepFrame_Read

lemma stepOk_None: "stepFrame off s t \<Longrightarrow> stepOk off s (None, t)"
  by (simp add: stepOk_def)

lemma stepOk_Read:
  assumes "stepFrame off s t" and "lo \<le> hi" and "hi \<le> 7"
    and "\<And>u. stepFrame off s u \<Longrightarrow> stepOk off s (f u)"
  shows "stepOk off s (case Read lo hi t of (Some e, u) \<Rightarrow> (Some e, u) | (None, u) \<Rightarrow> f u)"
proof (cases "rd t = []")
  case True
  then show ?thesis using assms(1) by (simp add: Read_def stepOk_def)
next
  case False
  have "stepFrame off s (snd (Read lo hi t))" using assms(1-3) by (rule stepFrame_Read)
  then show ?thesis using False assms(4) by (simp add: Read_def Let_def)
qed

lemma stepOk_if:
  "(c \<Longrightarrow> stepOk off s a) \<Longrightarrow> (\<not> c \<Longrightarrow> stepOk off s b) \<Longrightarrow> stepOk off s (if c then a else b)"
  by simp

lemma contRun_ok: "stepFrame off s t \<Longrightarrow> stepOk off s (contRun off t)"
  unfolding contRun_def Let_def
  by (intro stepOk_None stepFrame_intros) simp_all

lemma caseRgb_ok: "stepFrame off s t \<Longrightarrow> stepOk off s (caseRgb off t)"
  unfolding caseRgb_def Let_def
  by (intro stepOk_Read stepOk_None stepFrame_intros) simp_all

lemma caseRgba_ok: "stepFrame off s t \<Longrightarrow> stepOk off s (caseRgba off t)"
  unfolding caseRgba_def Let_def
  by (intro stepOk_Read stepOk_None stepFrame_intros) simp_all

lemma caseIndex_ok: "stepFrame off s t \<Longrightarrow> stepOk off s (caseIndex off t)"
  unfolding caseIndex_def Let_def
  by (intro stepOk_None stepFrame_intros) simp_all

lemma caseDiff_ok: "stepFrame off s t \<Longrightarrow> stepOk off s (caseDiff off t)"
  unfolding caseDiff_def Let_def
  by (intro stepOk_None stepFrame_intros) simp_all

lemma caseLuma_ok: "stepFrame off s t \<Longrightarrow> stepOk off s (caseLuma off t)"
  unfolding caseLuma_def Let_def
  by (intro stepOk_Read stepOk_None stepFrame_intros) simp_all

lemma caseRun_ok:
  assumes "stepFrame off s t" "buf t ! 0 AND op2Mask = opRun" "buf t ! 0 \<noteq> opRgb"
    "buf t ! 0 \<noteq> opRgba"
  shows "stepOk off s (caseRun off t)"
proof -
  have "caseRun off t = (None, copyPix off (lastp t) (t\<lparr>run := (buf t ! 0 AND 0x3F) + 1 - 1\<rparr>))"
    using run_len[OF assms(2-4)] by (simp add: caseRun_def Let_def)
  then show ?thesis using assms(1) by (simp add: stepOk_None stepFrame_intros)
qed

text \<open>
  Every pass of the loop body ends without error or with the reader's \<open>EOF\<close>, and keeps
  the package variables, the lengths, and all bytes of \<open>img.Pix\<close> outside its pixel.
\<close>

lemma decodePixel_ok: "stepOk off s (decodePixel off s)"
  unfolding decodePixel_def
  by (intro stepOk_if stepOk_Read contRun_ok caseRgb_ok caseRgba_ok caseIndex_ok caseDiff_ok
        caseLuma_ok caseRun_ok stepOk_None stepFrame_refl) simp_all

lemma decodePixel_frame: "stepFrame off s (snd (decodePixel off s))"
  using decodePixel_ok[of off s] by (simp add: stepOk_def)

lemma steps_frame:
  "steps n i s = (r, s') \<Longrightarrow>
     (r = None \<or> r = Some EOF) \<and> glob s' = glob s \<and> length (imgPix s') = length (imgPix s)
     \<and> (\<forall>j < 4 * i. imgPix s' ! j = imgPix s ! j)
     \<and> (length (buf s) = 8 \<longrightarrow> length (buf s') = 8 \<and> buf s' ! 7 = buf s ! 7)"
proof (induction n arbitrary: i s)
  case 0
  then show ?case by simp
next
  case (Suc n)
  obtain r1 s1 where d: "decodePixel (4 * i) s = (r1, s1)" by (cases "decodePixel (4 * i) s")
  have ok1: "stepOk (4 * i) s (r1, s1)" using decodePixel_ok[of "4 * i" s] d by simp
  show ?case
  proof (cases r1)
    case None
    then have "steps n (Suc i) s1 = (r, s')" using Suc.prems d by simp
    from Suc.IH[OF this] ok1 show ?thesis by (simp add: stepOk_def stepFrame_def)
  next
    case (Some e)
    then have "r = r1" "s' = s1" using Suc.prems d by simp_all
    with ok1 Some show ?thesis by (auto simp: stepOk_def stepFrame_def)
  qed
qed

lemma imgLoop_frame:
  assumes "imgLoop conf 0 s = (r, s')"
  shows "(r = None \<or> r = Some EOF) \<and> glob s' = glob s \<and> length (imgPix s') = length (imgPix s)
         \<and> (length (buf s) = 8 \<longrightarrow> length (buf s') = 8 \<and> buf s' ! 7 = buf s ! 7)"
  using steps_frame[of "Height conf * Width conf" 0 s r s'] assms by (simp add: imgLoop_steps)

section \<open>Pointers stay behind the pixel being decoded\<close>

lemma ld_upd [simp]:
  "ld (s\<lparr>seen := x1\<rparr>) p k = ld s p k"
  "ld (s\<lparr>lastp := x2\<rparr>) p k = ld s p k"
  "ld (s\<lparr>run := x3\<rparr>) p k = ld s p k"
  "ld (s\<lparr>buf := x4\<rparr>) p k = ld s p k"
  "ld (s\<lparr>rd := x5\<rparr>) p k = ld s p k"
  by (cases p; simp)+

lemma pixAt_upd [simp]:
  "pixAt (s\<lparr>seen := x1\<rparr>) p = pixAt s p"
  "pixAt (s\<lparr>lastp := x2\<rparr>) p = pixAt s p"
  "pixAt (s\<lparr>run := x3\<rparr>) p = pixAt s p"
  "pixAt (s\<lparr>buf := x4\<rparr>) p = pixAt s p"
  "pixAt (s\<lparr>rd := x5\<rparr>) p = pixAt s p"
  by (simp_all add: pixAt_def)

lemma hashPix_upd [simp]:
  "hashPix (s\<lparr>seen := x1\<rparr>) p = hashPix s p"
  "hashPix (s\<lparr>lastp := x2\<rparr>) p = hashPix s p"
  by (simp_all add: hashPix_def)

lemma ld_st_sep: "sep p off \<Longrightarrow> j < 4 \<Longrightarrow> ld (st off k v t) p j = ld t p j"
  by (cases p) (simp_all add: sep_def)

lemma frame_ld: "stepFrame off s s' \<Longrightarrow> sep p off \<Longrightarrow> j < 4 \<Longrightarrow> ld s' p j = ld s p j"
  by (cases p) (simp_all add: sep_def stepFrame_def)

lemma frame_pixAt: "stepFrame off s s' \<Longrightarrow> sep p off \<Longrightarrow> pixAt s' p = pixAt s p"
  by (simp add: pixAt_def frame_ld)

lemma sep_mono: "sep p off \<Longrightarrow> sep p (off + 4)"
  by (cases p) (simp_all add: sep_def)

lemma sep_self: "sep (AddrPix off) (off + 4)"
  by (simp add: sep_def)

lemma loopInvD:
  assumes "loopInv off s"
  shows "length (buf s) = 8" "length (seen s) = 64" "off + 4 \<le> length (imgPix s)"
    "sep (lastp s) off" "\<And>p. p \<in> set (seen s) \<Longrightarrow> sep p off"
  using assms by (simp_all add: loopInv_def)

lemma inv_step:
  assumes "loopInv off s" "decodePixel off s = (r, s')" "off + 8 \<le> length (imgPix s)"
  shows "loopInv (off + 4) s'"
proof -
  have f: "stepFrame off s s'" using decodePixel_frame[of off s] assms(2) by simp
  have "sep (lastp s') (off + 4)"
    using f assms(1) by (auto simp: stepFrame_def loopInv_def sep_self sep_mono)
  moreover have "\<forall>p \<in> set (seen s'). sep p (off + 4)"
    using f assms(1) by (auto simp: stepFrame_def loopInv_def sep_self sep_mono)
  ultimately show ?thesis
    using f assms(1,3) by (simp add: stepFrame_def loopInv_def)
qed

lemma inv_init: "0 < Width conf * Height conf \<Longrightarrow> loopInv 0 (initState g r conf)"
  by (auto simp: loopInv_def initState_def sep_def)

lemma steps_inv:
  "loopInv (4 * i) s \<Longrightarrow> steps n i s = (None, s') \<Longrightarrow> 4 * (i + n) + 4 \<le> length (imgPix s)
     \<Longrightarrow> loopInv (4 * (i + n)) s'"
proof (induction n arbitrary: i s)
  case 0
  then show ?case by simp
next
  case (Suc n)
  obtain r1 s1 where d: "decodePixel (4 * i) s = (r1, s1)" by (cases "decodePixel (4 * i) s")
  with Suc.prems(2) have r1: "r1 = None" and st: "steps n (Suc i) s1 = (None, s')"
    by (auto split: option.splits)
  have len: "length (imgPix s1) = length (imgPix s)"
    using decodePixel_frame[of "4 * i" s] d by (simp add: stepFrame_def)
  have "loopInv (4 * i + 4) s1"
    using Suc.prems(1) d by (rule inv_step) (use Suc.prems(3) in simp)
  then have "loopInv (4 * Suc i) s1" by (simp add: algebra_simps)
  from Suc.IH[OF this st] Suc.prems(3) len show ?case by simp
qed

text \<open>
  The invariant holds whenever a decode enters the loop body: in the state \<open>s\<close> that the
  first \<open>k\<close> pixels of an image lead to, for the pixel with index \<open>k\<close>.
\<close>

lemma loopInv_reached:
  assumes "steps k 0 (initState g r conf) = (None, s)" and "k < Width conf * Height conf"
  shows "loopInv (4 * k) s"
proof -
  have "0 < Width conf * Height conf" using assms(2) by linarith
  then have "loopInv (4 * 0) (initState g r conf)" using inv_init[of conf g r] by simp
  from steps_inv[OF this, of k s] assms show ?thesis by (simp add: initState_def)
qed

section \<open>The pixel a case produces\<close>

lemma decodePixel_op:
  assumes "run s = 0" "rd s = b # rest"
  shows "decodePixel off s =
     (let t = s\<lparr>buf := b # drop 1 (buf s), rd := rest\<rparr> in
      if b = opRgb then caseRgb off t
      else if b = opRgba then caseRgba off t
      else if b AND op2Mask = opIndex then caseIndex off t
      else if b AND op2Mask = opDiff then caseDiff off t
      else if b AND op2Mask = opLuma then caseLuma off t
      else if b AND op2Mask = opRun then caseRun off t
      else (None, t))"
  using assms by (simp add: decodePixel_def Read_def Let_def)

lemma pixAt_st4:
  assumes "off + 4 \<le> length (imgPix t)"
  shows "pixAt (st off 3 v3 (st off 2 v2 (st off (Suc 0) v1 (st off 0 v0 t)))) (AddrPix off)
           = [v0, v1, v2, v3]"
  using assms by (simp add: pixAt_def)

lemma pixAt_below:
  assumes "\<forall>j < off + 4. imgPix s' ! j = imgPix s ! j"
  shows "pixAt s' (AddrPix off) = pixAt s (AddrPix off)"
  using assms by (simp add: pixAt_def)

lemma copyPix_pixAt:
  assumes "sep q off" "off + 4 \<le> length (imgPix t)"
  shows "pixAt (copyPix off q t) (AddrPix off) = pixAt t q"
  using assms unfolding copyPix_def Let_def
  by (simp add: pixAt_st4 ld_st_sep) (simp add: pixAt_def)

lemma caseLuma_pix:
  assumes "sep (lastp t) off" "off + 4 \<le> length (imgPix t)" "rd t = b2 # rest"
    "1 < length (buf t)"
  shows "fst (caseLuma off t) = None"
    and "pixAt (snd (caseLuma off t)) (AddrPix off) =
          [ld t (lastp t) 0 + (drop_bit 4 (b2 AND 0xF0) - 8 + ((buf t ! 0 AND 0x3F) - 32)),
           ld t (lastp t) 1 + ((buf t ! 0 AND 0x3F) - 32),
           ld t (lastp t) 2 + (drop_bit 0 (b2 AND 0x0F) - 8 + ((buf t ! 0 AND 0x3F) - 32)),
           ld t (lastp t) 3]"
    and "lastp (snd (caseLuma off t)) = AddrPix off"
    and "rd (snd (caseLuma off t)) = rest"
  using assms
  by (simp_all add: caseLuma_def Read_def Let_def pixAt_st4 ld_st_sep nth_append)

lemma caseIndex_pix:
  assumes "sep (seen t ! unat (buf t ! 0)) off" "off + 4 \<le> length (imgPix t)"
  shows "fst (caseIndex off t) = None"
    and "pixAt (snd (caseIndex off t)) (AddrPix off) = pixAt t (seen t ! unat (buf t ! 0))"
    and "lastp (snd (caseIndex off t)) = AddrPix off"
    and "rd (snd (caseIndex off t)) = rd t"
  using assms by (simp_all add: caseIndex_def Let_def copyPix_pixAt)

lemma contRun_run:
  assumes "sep (lastp t) off" "off + 4 \<le> length (imgPix t)"
  shows "fst (contRun off t) = None" "rd (snd (contRun off t)) = rd t"
    "run (snd (contRun off t)) = run t - 1" "lastp (snd (contRun off t)) = lastp t"
    "length (imgPix (snd (contRun off t))) = length (imgPix t)"
    "pixAt (snd (contRun off t)) (AddrPix off) = pixAt t (lastp t)"
  using assms by (simp_all add: contRun_def Let_def copyPix_pixAt)

lemma caseRun_run:
  assumes "buf t ! 0 AND op2Mask = opRun" "buf t ! 0 \<noteq> opRgb" "buf t ! 0 \<noteq> opRgba"
    and "sep (lastp t) off" "off + 4 \<le> length (imgPix t)"
  shows "fst (caseRun off t) = None" "rd (snd (caseRun off t)) = rd t"
    "run (snd (caseRun off t)) = (buf t ! 0 AND 0x3F)" "lastp (snd (caseRun off t)) = lastp t"
    "length (imgPix (snd (caseRun off t))) = length (imgPix t)"
    "pixAt (snd (caseRun off t)) (AddrPix off) = pixAt t (lastp t)"
  using run_len[OF assms(1-3)] assms(4,5) by (simp_all add: caseRun_def Let_def copyPix_pixAt)

section \<open>What a case does to the history cache\<close>










section \<open>Runs, results and the end marker\<close>

text \<open>
  While the run counter lasts, the passes of the loop body read nothing and copy the last
  pixel.
\<close>

lemma steps_run:
  "m \<le> unat (run t) \<Longrightarrow> sep (lastp t) (4 * i) \<Longrightarrow> 4 * (i + m) \<le> length (imgPix t) \<Longrightarrow>
     \<exists>t'. steps m i t = (None, t') \<and> rd t' = rd t \<and> unat (run t') = unat (run t) - m
        \<and> lastp t' = lastp t
        \<and> (\<forall>j. i \<le> j \<and> j < i + m \<longrightarrow> pixAt t' (AddrPix (4 * j)) = pixAt t (lastp t))"
proof (induction m arbitrary: i t)
  case 0
  then show ?case by auto
next
  case (Suc m)
  have pos: "0 < run t" using Suc.prems(1) by (simp add: word_less_nat_alt)
  then have nz: "run t \<noteq> 0" by auto
  obtain t1 where t1: "t1 = snd (contRun (4 * i) t)" by simp
  have rng: "4 * i + 4 \<le> length (imgPix t)" using Suc.prems(3) by simp
  note c = contRun_run[OF Suc.prems(2) rng, folded t1]
  have d: "decodePixel (4 * i) t = (None, t1)"
    using pos c(1) t1 by (cases "contRun (4 * i) t") (simp add: decodePixel_def)
  have f: "stepFrame (4 * i) t t1" using decodePixel_frame[of "4 * i" t] d by simp
  have keep: "pixAt t1 (lastp t) = pixAt t (lastp t)"
    by (rule frame_pixAt[OF f Suc.prems(2)])
  have r1: "m \<le> unat (run t1)" using Suc.prems(1) nz c(3) by (simp add: unat_minus_one)
  have s1: "sep (lastp t1) (4 * Suc i)"
    using sep_mono[OF Suc.prems(2)] c(4) by (simp add: algebra_simps)
  have l1: "4 * (Suc i + m) \<le> length (imgPix t1)" using Suc.prems(3) c(5) by simp
  from Suc.IH[OF r1 s1 l1] obtain t' where
    t': "steps m (Suc i) t1 = (None, t')" "rd t' = rd t1" "unat (run t') = unat (run t1) - m"
      "lastp t' = lastp t1"
      "\<And>j. Suc i \<le> j \<Longrightarrow> j < Suc i + m \<Longrightarrow> pixAt t' (AddrPix (4 * j)) = pixAt t1 (lastp t1)"
    by blast
  have below: "\<forall>j < 4 * i + 4. imgPix t' ! j = imgPix t1 ! j"
    using steps_frame[OF t'(1)] by simp
  have pi: "pixAt t' (AddrPix (4 * i)) = pixAt t (lastp t)"
    using pixAt_below[OF below] c(6) by simp
  have "pixAt t' (AddrPix (4 * j)) = pixAt t (lastp t)" if "i \<le> j" "j < i + Suc m" for j
  proof (cases "j = i")
    case True
    then show ?thesis using pi by simp
  next
    case False
    then have "Suc i \<le> j" "j < Suc i + m" using that by simp_all
    then show ?thesis using t'(5) c(4) keep by simp
  qed
  moreover have "steps (Suc m) i t = (None, t')" using d t'(1) by simp
  moreover have "unat (run t') = unat (run t) - Suc m"
    using t'(3) c(3) nz by (simp add: unat_minus_one)
  ultimately show ?case using t'(2,4) c(2,4) by auto
qed

lemma checkEOF_res:
  "(fst (checkEOF conf s) = Inl EOF \<or> (\<exists>a. fst (checkEOF conf s) = Inl (ErrInvalidEOF a))
      \<or> (\<exists>img. fst (checkEOF conf s) = Inr img)) \<and> snd (snd (checkEOF conf s)) = glob s"
  by (simp add: checkEOF_def Read_def Let_def)

lemma decodePixels_res:
  "(fst (decodePixels g r conf) \<in> {Inl EOF, Inl PanicHugeDimensions}
      \<or> (\<exists>a. fst (decodePixels g r conf) = Inl (ErrInvalidEOF a))
      \<or> (\<exists>img. fst (decodePixels g r conf) = Inr img)) \<and> snd (snd (decodePixels g r conf)) = g"
proof (cases "2 ^ 63 \<le> 4 * Width conf * Height conf")
  case True
  then show ?thesis by (simp add: decodePixels_def)
next
  case False
  obtain r1 s1 where l: "imgLoop conf 0 (initState g r conf) = (r1, s1)"
    by (cases "imgLoop conf 0 (initState g r conf)")
  have g1: "glob s1 = g" and r1: "r1 = None \<or> r1 = Some EOF"
    using imgLoop_frame[OF l] by (simp_all add: initState_def)
  show ?thesis
  proof (cases r1)
    case None
    then have "decodePixels g r conf = checkEOF conf s1"
      using False l by (simp add: decodePixels_def)
    then show ?thesis using checkEOF_res[of conf s1] g1 by auto
  next
    case (Some e)
    then show ?thesis using False l r1 g1 by (simp add: decodePixels_def)
  qed
qed

lemma DecodeConfig_res:
  "(\<exists>conf. fst (DecodeConfig r) = Inr conf) \<or> fst (DecodeConfig r) = Inl EOF
     \<or> fst (DecodeConfig r) = Inl ErrUnexpectedEOF
     \<or> (\<exists>a. fst (DecodeConfig r) = Inl (ErrInvalidMagic a))"
  by (simp add: DecodeConfig_def ReadAtLeast_def)


text \<open>No write of the decoder reaches the package variables.\<close>

lemma Decode_globals: "snd (snd (Decode g bs)) = g"
proof (cases "DecodeConfig bs")
  case (Pair a r')
  then show ?thesis using decodePixels_res[of g r'] by (cases a) (simp_all add: Decode_def)
qed



text \<open>
  The reads of the loop body fill at most \<open>buf[0:5]\<close>, so \<open>buf[7]\<close> is still 0 when the end
  marker is read. When the reader then has between one and seven bytes left, \<open>r.Read(buf)\<close>
  returns them without an error, \<open>buf[7]\<close> stays 0, and the comparison with the end marker
  fails: every stream that ends inside the end marker gives the error for a wrong end
  marker.
\<close>

lemma checkEOF_short:
  assumes "length (buf s) = 8" "buf s ! 7 = 0" "rd s \<noteq> []" "length (rd s) < 8"
  shows "fst (checkEOF conf s) = Inl (ErrInvalidEOF (rd s @ drop (length (rd s)) (buf s)))"
proof -
  let ?b = "rd s @ drop (length (rd s)) (buf s)"
  have "?b ! 7 = 0" using assms(1,2,4) by (simp add: nth_append)
  moreover have "eof ! 7 = 1" by (simp add: eof_def)
  ultimately have "?b \<noteq> eof" by auto
  then show ?thesis using assms(3,4) by (simp add: checkEOF_def Read_def Let_def min_def)
qed

lemma decodePixels_short_end_marker:
  assumes "4 * Width conf * Height conf < 2 ^ 63"
    and "imgLoop conf 0 (initState g r conf) = (None, s)"
    and "rd s \<noteq> []" and "length (rd s) < 8"
  shows "fst (decodePixels g r conf) = Inl (ErrInvalidEOF (rd s @ drop (length (rd s)) (buf s)))"
proof -
  have "length (buf s) = 8 \<and> buf s ! 7 = 0"
    using imgLoop_frame[OF assms(2)] by (simp add: initState_def)
  then have "fst (checkEOF conf s) = Inl (ErrInvalidEOF (rd s @ drop (length (rd s)) (buf s)))"
    using assms(3,4) by (intro checkEOF_short) simp_all
  then show ?thesis using assms(1,2) by (simp add: decodePixels_def)
qed

section \<open>The reader of one piece\<close>

text \<open>
  On a reader that delivers all its bytes in one piece, the decoder on pieces does what the
  decoder of the first sections does.
\<close>

lemmas pieces_defs =
  Decode_pieces_def DecodeConfig_pieces_def decodePixels_pieces_def imgLoop_pieces.simps
  rowLoop_pieces.simps decodePixel_pieces_def onPiece_def keepPieces_def nextPiece_def

lemma nextPiece_one: "onePiece q s t \<Longrightarrow> nextPiece q s = ([], t)"
  by (auto simp: onePiece_def nextPiece_def)

lemma onPiece_one: "onePiece q s t \<Longrightarrow> onPiece f q s = keepPieces [] (f t)"
  by (simp add: onPiece_def nextPiece_one keepPieces_def split: prod.splits)

lemma onePiece_refl: "onePiece [] s s"
  by (simp add: onePiece_def)

lemma decodePixel_pieces_nil: "decodePixel_pieces off [] s = keepPieces [] (decodePixel off s)"
proof (cases "0 < run s")
  case True
  then show ?thesis by (simp add: decodePixel_pieces_def decodePixel_def)
next
  case False
  obtain e s1 where r: "Read 0 1 s = (e, s1)" by (cases "Read 0 1 s")
  show ?thesis
  proof (cases e)
    case None
    then show ?thesis
      using False r
      by (simp add: decodePixel_pieces_def decodePixel_def onPiece_one[OF onePiece_refl]
          keepPieces_def consts_defs)
  next
    case (Some a)
    then show ?thesis
      using False r
      by (simp add: decodePixel_pieces_def decodePixel_def onPiece_one[OF onePiece_refl]
          keepPieces_def)
  qed
qed

lemma decodePixel_pieces_one:
  assumes "onePiece q s t"
  shows "\<exists>t'. decodePixel off t = (fst (decodePixel_pieces off q s), t')
           \<and> onePiece (fst (snd (decodePixel_pieces off q s)))
                 (snd (snd (decodePixel_pieces off q s))) t'"
proof (cases "q = [] \<and> s = t")
  case True
  then show ?thesis
    by (cases "decodePixel off t") (simp add: decodePixel_pieces_nil keepPieces_def onePiece_refl)
next
  case False
  then have r0: "run s = 0" and "rd s = []" and "\<exists>c. q = [c] \<and> t = s\<lparr>rd := c\<rparr>"
    using assms by (auto simp: onePiece_def)
  then have rt: "run t = 0" by auto
  have "decodePixel_pieces off q s = decodePixel_pieces off [] t"
    using r0 rt
    by (simp add: decodePixel_pieces_def onPiece_one[OF assms] onPiece_one[OF onePiece_refl])
  then show ?thesis
    by (cases "decodePixel off t") (simp add: decodePixel_pieces_nil keepPieces_def onePiece_refl)
qed

lemma decodePixel_pieces_sim:
  assumes "decodePixel_pieces off q s = (e, q', s')" "onePiece q s t"
  shows "\<exists>t'. decodePixel off t = (e, t') \<and> onePiece q' s' t'"
  using decodePixel_pieces_one[OF assms(2), of off] assms(1) by simp

lemma rowLoop_pieces_sim:
  "rowLoop_pieces conf y x q s = (e, q', s') \<Longrightarrow> onePiece q s t \<Longrightarrow>
     \<exists>t'. rowLoop conf y x t = (e, t') \<and> onePiece q' s' t'"
proof (induction conf y x q s arbitrary: t rule: rowLoop_pieces.induct)
  case (1 conf y x q s)
  show ?case
  proof (cases "x < Width conf")
    case False
    then show ?thesis
      using "1.prems" by (simp add: rowLoop_pieces.simps[of conf y x] rowLoop.simps[of conf y x])
  next
    case True
    obtain e1 q1 s1 where d: "decodePixel_pieces (PixOffset conf x y) q s = (e1, q1, s1)"
      by (cases "decodePixel_pieces (PixOffset conf x y) q s") auto
    from decodePixel_pieces_sim[OF d "1.prems"(2)] obtain t1 where
      t1: "decodePixel (PixOffset conf x y) t = (e1, t1)" "onePiece q1 s1 t1" by blast
    show ?thesis
    proof (cases e1)
      case None
      then have "rowLoop_pieces conf y (x + 1) q1 s1 = (e, q', s')"
        using "1.prems"(1) True d by (simp add: rowLoop_pieces.simps[of conf y x])
      from "1.IH"[OF True d[symmetric] None refl this t1(2)] obtain t' where
        "rowLoop conf y (x + 1) t1 = (e, t')" "onePiece q' s' t'" by blast
      then show ?thesis using True t1(1) None by (simp add: rowLoop.simps[of conf y x])
    next
      case (Some a)
      then have "e = e1" "q' = q1" "s' = s1"
        using "1.prems"(1) True d by (simp_all add: rowLoop_pieces.simps[of conf y x])
      then show ?thesis using True t1 Some by (simp add: rowLoop.simps[of conf y x])
    qed
  qed
qed

lemma imgLoop_pieces_sim:
  "imgLoop_pieces conf y q s = (e, q', s') \<Longrightarrow> onePiece q s t \<Longrightarrow>
     \<exists>t'. imgLoop conf y t = (e, t') \<and> onePiece q' s' t'"
proof (induction conf y q s arbitrary: t rule: imgLoop_pieces.induct)
  case (1 conf y q s)
  show ?case
  proof (cases "y < Height conf")
    case False
    then show ?thesis
      using "1.prems" by (simp add: imgLoop_pieces.simps[of conf y] imgLoop.simps[of conf y])
  next
    case True
    obtain e1 q1 s1 where d: "rowLoop_pieces conf y 0 q s = (e1, q1, s1)"
      by (cases "rowLoop_pieces conf y 0 q s") auto
    from rowLoop_pieces_sim[OF d "1.prems"(2)] obtain t1 where
      t1: "rowLoop conf y 0 t = (e1, t1)" "onePiece q1 s1 t1" by blast
    show ?thesis
    proof (cases e1)
      case None
      then have "imgLoop_pieces conf (y + 1) q1 s1 = (e, q', s')"
        using "1.prems"(1) True d by (simp add: imgLoop_pieces.simps[of conf y])
      from "1.IH"[OF True d[symmetric] None refl this t1(2)] obtain t' where
        "imgLoop conf (y + 1) t1 = (e, t')" "onePiece q' s' t'" by blast
      then show ?thesis using True t1(1) None by (simp add: imgLoop.simps[of conf y])
    next
      case (Some a)
      then have "e = e1" "q' = q1" "s' = s1"
        using "1.prems"(1) True d by (simp_all add: imgLoop_pieces.simps[of conf y])
      then show ?thesis using True t1 Some by (simp add: imgLoop.simps[of conf y])
    qed
  qed
qed

lemma decodePixels_pieces_one: "decodePixels_pieces g [c] conf = fst (decodePixels g c conf)"
proof (cases "2 ^ 63 \<le> 4 * Width conf * Height conf")
  case True
  then show ?thesis by (simp add: decodePixels_pieces_def decodePixels_def)
next
  case False
  obtain e q' s' where l: "imgLoop_pieces conf 0 [c] (initState g [] conf) = (e, q', s')"
    by (cases "imgLoop_pieces conf 0 [c] (initState g [] conf)") auto
  have "onePiece [c] (initState g [] conf) (initState g c conf)"
    by (simp add: onePiece_def initState_def)
  from imgLoop_pieces_sim[OF l this] obtain t' where
    t': "imgLoop conf 0 (initState g c conf) = (e, t')" "onePiece q' s' t'" by blast
  show ?thesis
    using False l t'(1) nextPiece_one[OF t'(2)]
    by (cases e) (simp_all add: decodePixels_pieces_def decodePixels_def)
qed

lemma DecodeConfig_prefix:
  "14 \<le> length bs \<Longrightarrow> DecodeConfig (take 14 bs) = (fst (DecodeConfig bs), [])"
  by (simp add: DecodeConfig_def ReadAtLeast_def)

text \<open>
  The decoder of the first sections is the decoder on pieces for the reader that delivers
  its bytes in one piece.
\<close>

lemma Decode_pieces_one: "Decode_pieces g [bs] = fst (Decode g bs)"
proof (cases "14 \<le> length bs")
  case True
  have r: "snd (DecodeConfig bs) = drop 14 bs"
    using True by (simp add: DecodeConfig_def ReadAtLeast_def)
  show ?thesis
  proof (cases "fst (DecodeConfig bs)")
    case (Inl e)
    then show ?thesis
      using True by (cases "DecodeConfig bs")
        (simp add: Decode_pieces_def DecodeConfig_pieces_def Decode_def DecodeConfig_prefix)
  next
    case (Inr conf)
    then show ?thesis
      using True r by (cases "DecodeConfig bs")
        (simp add: Decode_pieces_def DecodeConfig_pieces_def Decode_def DecodeConfig_prefix
          decodePixels_pieces_one)
  qed
next
  case False
  then have "\<exists>e. DecodeConfig bs = (Inl e, [])" by (simp add: DecodeConfig_def ReadAtLeast_def)
  then show ?thesis
    using False by (auto simp: Decode_pieces_def DecodeConfig_pieces_def Decode_def)
qed

section \<open>The properties the specification states\<close>




text \<open>
  C3. A pass of the loop body that reads a LUMA op-code byte \<open>b\<close> (top two bits 10) and then
  a byte \<open>b2\<close>, when \<open>last\<close> points to the pixel (r,g,b_,a), ends without error and produces
  the pixel (r + dr, g + dg, b_ + db, a), where dg = (b AND 0x3F) - 32,
  dr = ((b2 >> 4) AND 0xF) - 8 + dg and db = (b2 AND 0xF) - 8 + dg. All of these are 8-bit
  words, whose sums and differences wrap around modulo 256. \<open>last\<close> then points to the new
  pixel and exactly the two bytes have been read.
\<close>

theorem luma_pixel:
  assumes "loopInv off s" and "run s = 0" and "rd s = b # b2 # rest"
    and "b AND op2Mask = opLuma" and "pixAt s (lastp s) = [r, g, bl, a]"
    and "dg = (b AND 0x3F) - 32" and "dr = (drop_bit 4 b2 AND 0xF) - 8 + dg"
    and "db = (b2 AND 0xF) - 8 + dg"
  shows "\<exists>s'. decodePixel off s = (None, s')
           \<and> pixAt s' (AddrPix off) = [r + dr, g + dg, bl + db, a]
           \<and> lastp s' = AddrPix off \<and> rd s' = rest"
proof -
  let ?t = "s\<lparr>buf := b # drop 1 (buf s), rd := b2 # rest\<rparr>"
  have nb: "b \<noteq> opRgb" "b \<noteq> opRgba" "b AND op2Mask \<noteq> opIndex" "b AND op2Mask \<noteq> opDiff"
    using assms(4) by (auto simp: consts_defs)
  have d: "decodePixel off s = caseLuma off ?t"
    using decodePixel_op[OF assms(2,3), of off] nb assms(4) by (simp add: Let_def)
  have t: "sep (lastp ?t) off" "off + 4 \<le> length (imgPix ?t)" "rd ?t = b2 # rest"
    "1 < length (buf ?t)"
    using loopInvD[OF assms(1)] by simp_all
  have l: "ld s (lastp s) 0 = r" "ld s (lastp s) 1 = g" "ld s (lastp s) 2 = bl"
    "ld s (lastp s) 3 = a"
    using assms(5) by (simp_all add: pixAt_def)
  have "fst (caseLuma off ?t) = None" by (rule caseLuma_pix(1)[OF t])
  moreover have "pixAt (snd (caseLuma off ?t)) (AddrPix off) = [r + dr, g + dg, bl + db, a]"
    unfolding caseLuma_pix(2)[OF t] using l assms(6-8) by (simp add: luma_nib)
  moreover note caseLuma_pix(3)[OF t] caseLuma_pix(4)[OF t]
  ultimately show ?thesis unfolding d by (cases "caseLuma off ?t") simp
qed

text \<open>
  Witness for C3: the first pass of a 1x1 image on the bytes 0x80, 0x00, from the start
  pixel (0,0,0,255). The differences are dg = -32 and dr = db = -40, and the channels wrap
  around to 216, 224, 216.
\<close>

theorem luma_pixel_witness:
  "loopInv 0 (initState initGlobals [0x80, 0x00] \<lparr>Width = 1, Height = 1\<rparr>)
   \<and> run (initState initGlobals [0x80, 0x00] \<lparr>Width = 1, Height = 1\<rparr>) = 0
   \<and> rd (initState initGlobals [0x80, 0x00] \<lparr>Width = 1, Height = 1\<rparr>) = [0x80, 0x00]
   \<and> (0x80 :: byte) AND op2Mask = opLuma
   \<and> pixAt (initState initGlobals [0x80, 0x00] \<lparr>Width = 1, Height = 1\<rparr>) AddrStartPixel
       = [0, 0, 0, 255]
   \<and> (\<exists>s'. decodePixel 0 (initState initGlobals [0x80, 0x00] \<lparr>Width = 1, Height = 1\<rparr>)
              = (None, s')
          \<and> pixAt s' (AddrPix 0) = [216, 224, 216, 255] \<and> lastp s' = AddrPix 0 \<and> rd s' = [])"
proof -
  let ?s = "initState initGlobals [0x80, 0x00] \<lparr>Width = 1, Height = 1\<rparr>"
  have h1: "loopInv 0 ?s" by (simp add: loopInv_def initState_def sep_def)
  have h2: "run ?s = 0" and h3: "rd ?s = [0x80, 0x00]" by (simp_all add: initState_def)
  have h4: "(0x80 :: byte) AND op2Mask = opLuma" by (simp add: consts_defs)
  have h5: "pixAt ?s AddrStartPixel = [0, 0, 0, 255]"
    by (simp add: initState_def initGlobals_def pixAt_def)
  have l: "lastp ?s = AddrStartPixel" by (simp add: initState_def)
  have h5': "pixAt ?s (lastp ?s) = [0, 0, 0, 255]" by (simp only: l h5)
  have h6: "(224::byte) = (0x80 AND 0x3F) - 32"
    and h7: "(216::byte) = (drop_bit 4 0 AND 0xF) - 8 + 224"
    and h8: "(216::byte) = (0 AND 0xF) - 8 + 224"
    by simp_all
  note r = luma_pixel[OF h1 h2 h3 h4 h5' h6 h7 h8]
  have r': "\<exists>s'. decodePixel 0 ?s = (None, s')
          \<and> pixAt s' (AddrPix 0) = [216, 224, 216, 255] \<and> lastp s' = AddrPix 0 \<and> rd s' = []"
    using r by (simp only: add_0)
  show ?thesis by (intro conjI h1 h2 h3 h4 h5 r')
qed

text \<open>
  C4, as the code has it. An op-code byte whose low six bits are 63 is one of 0x3F, 0x7F,
  0xBF and 0xFF, and the \<open>switch\<close> takes it as an INDEX, DIFF, LUMA and RGBA op-code
  respectively: 0xFF is the RGBA tag, which is tried before the RUN case, so no such byte
  gets to the run-length check, and the pass does not end with the error for an invalid run
  length.
\<close>

theorem low63_dispatch:
  assumes "run s = 0" and "rd s = b # rest" and "b AND 0x3F = 0x3F"
  shows "(b = 0x3F \<or> b = 0x7F \<or> b = 0xBF \<or> b = 0xFF) \<and>
         decodePixel off s =
           (let t = s\<lparr>buf := b # drop 1 (buf s), rd := rest\<rparr>
            in if b = 0xFF then caseRgba off t
               else if b = 0x3F then caseIndex off t
               else if b = 0x7F then caseDiff off t
               else caseLuma off t) \<and>
         fst (decodePixel off s) \<noteq> Some (ErrInvalidRunLength v)"
proof -
  have c: "b = 0x3F \<or> b = 0x7F \<or> b = 0xBF \<or> b = 0xFF" by (rule low6_all_ones[OF assms(3)])
  have d: "decodePixel off s =
           (let t = s\<lparr>buf := b # drop 1 (buf s), rd := rest\<rparr>
            in if b = 0xFF then caseRgba off t
               else if b = 0x3F then caseIndex off t
               else if b = 0x7F then caseDiff off t
               else caseLuma off t)"
    using c decodePixel_op[OF assms(1,2), of off] by (auto simp: consts_defs Let_def)
  have "fst (decodePixel off s) = None \<or> fst (decodePixel off s) = Some EOF"
    using decodePixel_ok[of off s] by (simp add: stepOk_def)
  then have "fst (decodePixel off s) \<noteq> Some (ErrInvalidRunLength v)" by auto
  with c d show ?thesis by blast
qed

text \<open>Witness for C4: the first pass of a 1x1 image on the op-code bytes 0xFF, 1, 2, 3, 4.\<close>

theorem low63_dispatch_witness:
  "run (initState initGlobals [0xFF, 1, 2, 3, 4] \<lparr>Width = 1, Height = 1\<rparr>) = 0
   \<and> rd (initState initGlobals [0xFF, 1, 2, 3, 4] \<lparr>Width = 1, Height = 1\<rparr>) = [0xFF, 1, 2, 3, 4]
   \<and> (0xFF :: byte) AND 0x3F = 0x3F
   \<and> decodePixel 0 (initState initGlobals [0xFF, 1, 2, 3, 4] \<lparr>Width = 1, Height = 1\<rparr>)
       = caseRgba 0 ((initState initGlobals [0xFF, 1, 2, 3, 4] \<lparr>Width = 1, Height = 1\<rparr>)
                       \<lparr>buf := [0xFF, 0, 0, 0, 0, 0, 0, 0], rd := [1, 2, 3, 4]\<rparr>)
   \<and> fst (decodePixel 0 (initState initGlobals [0xFF, 1, 2, 3, 4] \<lparr>Width = 1, Height = 1\<rparr>))
       \<noteq> Some (ErrInvalidRunLength 64)"
proof -
  let ?s = "initState initGlobals [0xFF, 1, 2, 3, 4] \<lparr>Width = 1, Height = 1\<rparr>"
  have h1: "run ?s = 0" and h2: "rd ?s = [0xFF, 1, 2, 3, 4]" by (simp_all add: initState_def)
  have h3: "(0xFF :: byte) AND 0x3F = 0x3F" by simp
  have b: "drop 1 (buf ?s) = [0, 0, 0, 0, 0, 0, 0]"
    by (simp add: initState_def replicate_numeral)
  note r = low63_dispatch[OF h1 h2 h3, of 0 64]
  have "decodePixel 0 ?s
          = caseRgba 0 (?s\<lparr>buf := [0xFF, 0, 0, 0, 0, 0, 0, 0], rd := [1, 2, 3, 4]\<rparr>)"
    using r by (simp only: Let_def b if_True simp_thms)
  moreover have "fst (decodePixel 0 ?s) \<noteq> Some (ErrInvalidRunLength 64)" using r by blast
  ultimately show ?thesis using h1 h2 h3 by (intro conjI)
qed

text \<open>
  Counterexample to C4 as stated: the pixel stream of a 1x1 image starts with the op-code
  byte 0xFF, whose low six bits are 63, and the decode of the stream succeeds, with the
  pixel (1,2,3,4).
\<close>

theorem low63_counterexample:
  "(0xFF :: byte) AND 0x3F = 63 \<and>
   DecodeConfig (Magic @ [0, 0, 0, 1] @ [0, 0, 0, 1] @ [4, 0] @ [0xFF, 1, 2, 3, 4]
                   @ [0, 0, 0, 0, 0, 0, 0, 1])
     = (Inr \<lparr>Width = 1, Height = 1\<rparr>, [0xFF, 1, 2, 3, 4, 0, 0, 0, 0, 0, 0, 0, 1]) \<and>
   Decode initGlobals (Magic @ [0, 0, 0, 1] @ [0, 0, 0, 1] @ [4, 0] @ [0xFF, 1, 2, 3, 4]
                         @ [0, 0, 0, 0, 0, 0, 0, 1])
     = (Inr \<lparr>Pix = [1, 2, 3, 4], Stride = 4, Rect = ((0, 0), (1, 1))\<rparr>, [], initGlobals)"
  by (simp add: run_defs consts_defs)

text \<open>
  C5, at a stream that ends inside the end marker. After the header of a 1x1 image and one
  RGBA op-code only three of the eight bytes of the end marker are there. \<open>r.Read(buf)\<close>
  returns the three bytes and no error, the count it returns is not looked at, and the
  comparison of the whole of \<open>buf\<close> (three new bytes, five stale ones) with the end marker
  gives the error for a wrong end marker instead of the reader's end-of-input error, which
  is what the claim asks for when the source cannot supply a byte of the end marker
  (\<open>decodePixels_short_end_marker\<close> above has the general case).
\<close>

theorem Decode_truncated_end_marker:
  "Decode initGlobals (Magic @ [0, 0, 0, 1] @ [0, 0, 0, 1] @ [4, 0] @ [0xFF, 10, 20, 30, 255]
               @ [0, 0, 0])
     = (Inl (ErrInvalidEOF [0, 0, 0, 30, 255, 0, 0, 0]), [], initGlobals)
   \<and> \<not> UnexpectedEnd (ErrInvalidEOF [0, 0, 0, 30, 255, 0, 0, 0])"
  by (simp add: run_defs consts_defs UnexpectedEnd_def)

text \<open>
  C6. A pass of the loop body that reads an INDEX op-code byte \<open>b\<close> (top two bits 00) ends
  without error and produces the pixel that the history cache holds at slot \<open>b AND 0x3F\<close>
  when the byte is read; \<open>last\<close> then points to the produced pixel, and only the op-code
  byte has been read.
\<close>

theorem index_pixel:
  assumes "loopInv off s" and "run s = 0" and "rd s = b # rest" and "b AND op2Mask = opIndex"
  shows "\<exists>s'. decodePixel off s = (None, s')
           \<and> pixAt s' (AddrPix off) = cache s ! unat (b AND 0x3F)
           \<and> lastp s' = AddrPix off \<and> rd s' = rest"
proof -
  let ?t = "s\<lparr>buf := b # drop 1 (buf s), rd := rest\<rparr>"
  have nb: "b \<noteq> opRgb" "b \<noteq> opRgba"
    using assms(4) by (auto simp: consts_defs)
  have d: "decodePixel off s = caseIndex off ?t"
    using decodePixel_op[OF assms(2,3), of off] nb assms(4) by (simp add: Let_def)
  have lt: "unat b < length (seen s)"
    using index_lt[OF assms(4)] loopInvD(2)[OF assms(1)] by simp
  then have "sep (seen s ! unat b) off" using loopInvD(5)[OF assms(1)] by simp
  then have t: "sep (seen ?t ! unat (buf ?t ! 0)) off" "off + 4 \<le> length (imgPix ?t)"
    using loopInvD[OF assms(1)] by simp_all
  have c: "cache s ! unat (b AND 0x3F) = pixAt s (seen s ! unat b)"
    using lt by (simp add: cache_def index_and[OF assms(4)])
  have "pixAt (snd (caseIndex off ?t)) (AddrPix off) = cache s ! unat (b AND 0x3F)"
    unfolding caseIndex_pix(2)[OF t] c by simp
  moreover have "rd (snd (caseIndex off ?t)) = rest"
    unfolding caseIndex_pix(4)[OF t] by simp
  moreover note caseIndex_pix(1)[OF t] caseIndex_pix(3)[OF t]
  ultimately show ?thesis unfolding d by (cases "caseIndex off ?t") simp
qed

text \<open>
  Witness for C6: the second pass of a 2x1 image with the pixel stream 0xFF, 1, 2, 3, 4,
  0x0E. The first pass decodes the RGBA op-code, which puts the pixel (1,2,3,4) at slot 14
  of the cache; the second reads the INDEX op-code byte 0x0E and produces that pixel.
\<close>

theorem index_pixel_witness:
  "decodePixel 0 (initState initGlobals [0xFF, 1, 2, 3, 4, 0x0E] \<lparr>Width = 2, Height = 1\<rparr>)
     = (None, \<lparr>glob = initGlobals, rd = [0x0E], buf = [0xFF, 1, 2, 3, 4, 0, 0, 0],
               lastp = AddrPix 0, run = 0, seen = (replicate 64 AddrZeroPixel)[14 := AddrPix 0],
               imgPix = [1, 2, 3, 4, 0, 0, 0, 0]\<rparr>)
   \<and> loopInv 4 \<lparr>glob = initGlobals, rd = [0x0E], buf = [0xFF, 1, 2, 3, 4, 0, 0, 0],
              lastp = AddrPix 0, run = 0, seen = (replicate 64 AddrZeroPixel)[14 := AddrPix 0],
              imgPix = [1, 2, 3, 4, 0, 0, 0, 0]\<rparr>
   \<and> (0x0E :: byte) AND op2Mask = opIndex
   \<and> (\<exists>s'. decodePixel 4 \<lparr>glob = initGlobals, rd = [0x0E], buf = [0xFF, 1, 2, 3, 4, 0, 0, 0],
                            lastp = AddrPix 0, run = 0,
                            seen = (replicate 64 AddrZeroPixel)[14 := AddrPix 0],
                            imgPix = [1, 2, 3, 4, 0, 0, 0, 0]\<rparr> = (None, s')
          \<and> pixAt s' (AddrPix 4) = [1, 2, 3, 4] \<and> lastp s' = AddrPix 4 \<and> rd s' = [])"
proof -
  let ?s = "\<lparr>glob = initGlobals, rd = [0x0E], buf = [0xFF, 1, 2, 3, 4, 0, 0, 0],
              lastp = AddrPix 0, run = 0, seen = (replicate 64 AddrZeroPixel)[14 := AddrPix 0],
              imgPix = [1, 2, 3, 4, 0, 0, 0, 0]\<rparr>"
  have h0: "decodePixel 0 (initState initGlobals [0xFF, 1, 2, 3, 4, 0x0E] \<lparr>Width = 2, Height = 1\<rparr>)
              = (None, ?s)"
    by (simp add: initState_def decodePixel_def caseRgba_def Read_def st_def hashPix_def Let_def
        consts_defs replicate_numeral list_update_Cons_numeral)
  have "\<forall>p \<in> set ((replicate 64 AddrZeroPixel)[14 := AddrPix 0]). sep p 4"
    using set_update_subset_insert[of "replicate 64 AddrZeroPixel" 14 "AddrPix 0"]
    by (auto simp: sep_def)
  then have h1: "loopInv 4 ?s" by (simp add: loopInv_def sep_def)
  have h: "run ?s = 0" "rd ?s = [0x0E]" "(0x0E :: byte) AND op2Mask = opIndex"
    by (simp_all add: consts_defs)
  have c: "cache ?s ! unat ((0x0E :: byte) AND 0x3F) = [1, 2, 3, 4]"
    by (simp add: cache_def pixAt_def)
  have r: "\<exists>s'. decodePixel 4 ?s = (None, s')
          \<and> pixAt s' (AddrPix 4) = [1, 2, 3, 4] \<and> lastp s' = AddrPix 4 \<and> rd s' = []"
    using index_pixel[OF h1 h] by (simp only: c)
  show ?thesis by (intro conjI h0 h1 h(3) r)
qed

text \<open>
  C7, at a reader that delivers the bytes of a stream in two pieces. The 27 bytes of a 1x1
  image (the header, the RGBA op-code bytes 0xFF, 10, 20, 30, 255, the end marker) decode to
  the pixel (10,20,30,255) when the reader hands them out in one piece. When it hands out
  16 bytes and then 11, as a \<open>bufio.Reader\<close> with a buffer of 16 bytes does,
  \<open>r.Read(buf[1:5])\<close> returns the one byte that is left of the first piece and no error;
  the count it returns is not looked at, so the pixel is made of that byte and three stale
  bytes of \<open>buf\<close>, and the check of the end marker then reads 20, 30, 255 and five bytes of
  the end marker and fails. The two streams have the same bytes, and the results of the two
  runs differ.
\<close>

theorem Decode_depends_on_delivery:
  "concat [Magic @ [0, 0, 0, 1] @ [0, 0, 0, 1] @ [4, 0] @ [0xFF, 10, 20, 30, 255]
             @ [0, 0, 0, 0, 0, 0, 0, 1]]
     = concat [Magic @ [0, 0, 0, 1] @ [0, 0, 0, 1] @ [4, 0] @ [0xFF, 10],
               [20, 30, 255, 0, 0, 0, 0, 0, 0, 0, 1]]
   \<and> Decode_pieces initGlobals
         [Magic @ [0, 0, 0, 1] @ [0, 0, 0, 1] @ [4, 0] @ [0xFF, 10, 20, 30, 255]
            @ [0, 0, 0, 0, 0, 0, 0, 1]]
       = Inr \<lparr>Pix = [10, 20, 30, 255], Stride = 4, Rect = ((0, 0), (1, 1))\<rparr>
   \<and> Decode_pieces initGlobals
         [Magic @ [0, 0, 0, 1] @ [0, 0, 0, 1] @ [4, 0] @ [0xFF, 10],
          [20, 30, 255, 0, 0, 0, 0, 0, 0, 0, 1]]
       = Inl (ErrInvalidEOF [20, 30, 255, 0, 0, 0, 0, 0])"
  by (simp add: pieces_defs run_defs consts_defs)

text \<open>
  C8. The error branch of the RUN case cannot be taken. A byte that gets to the RUN case
  has the top two bits 11 and is neither 0xFE nor 0xFF, so its low six bits are at most 61
  and the run length computed from them lies between 1 and 62; and no call of \<open>Decode\<close>,
  on any input, returns the error for an invalid run length.
\<close>

theorem InvalidRunLength_unreachable:
  "(b AND op2Mask = opRun \<and> b \<noteq> opRgb \<and> b \<noteq> opRgba \<longrightarrow>
      unat (b AND 0x3F) \<le> 61 \<and> 1 \<le> (b AND 0x3F) + 1 \<and> (b AND 0x3F) + 1 \<le> 62)
   \<and> fst (Decode g bs) \<noteq> Inl (ErrInvalidRunLength v)"
proof -
  have "fst (Decode g bs) \<noteq> Inl (ErrInvalidRunLength v)"
  proof (cases "DecodeConfig bs")
    case (Pair a r')
    show ?thesis
    proof (cases a)
      case (Inl e)
      then show ?thesis using DecodeConfig_res[of bs] Pair by (auto simp: Decode_def)
    next
      case (Inr conf)
      then show ?thesis using decodePixels_res[of g r' conf] Pair by (auto simp: Decode_def)
    qed
  qed
  moreover have "unat (b AND 0x3F) \<le> 61 \<and> 1 \<le> (b AND 0x3F) + 1 \<and> (b AND 0x3F) + 1 \<le> 62"
    if "b AND op2Mask = opRun" "b \<noteq> opRgb" "b \<noteq> opRgba"
  proof -
    have "\<not> (62 < (b AND 0x3F) + 1 \<or> (b AND 0x3F) + 1 < 1)" using run_len[OF that] .
    moreover have "unat (b AND 0x3F) < 64" by (simp add: and_3F_unat)
    ultimately show ?thesis
      by (simp add: word_less_nat_alt word_le_nat_alt unat_word_ariths not_less)
  qed
  ultimately show ?thesis by blast
qed

text \<open>
  Witness for C8: the byte 0xFD, the RUN op-code with the longest run (62), and the stream
  of a 1x1 image that holds it.
\<close>

theorem InvalidRunLength_unreachable_witness:
  "(0xFD :: byte) AND op2Mask = opRun \<and> (0xFD :: byte) \<noteq> opRgb \<and> (0xFD :: byte) \<noteq> opRgba
   \<and> unat ((0xFD :: byte) AND 0x3F) \<le> 61 \<and> 1 \<le> ((0xFD :: byte) AND 0x3F) + 1
   \<and> ((0xFD :: byte) AND 0x3F) + 1 \<le> 62
   \<and> fst (Decode initGlobals (Magic @ [0, 0, 0, 1] @ [0, 0, 0, 1] @ [4, 0] @ [0xFD]
                                  @ [0, 0, 0, 0, 0, 0, 0, 1])) \<noteq> Inl (ErrInvalidRunLength 62)"
proof -
  have h: "(0xFD :: byte) AND op2Mask = opRun \<and> (0xFD :: byte) \<noteq> opRgb
             \<and> (0xFD :: byte) \<noteq> opRgba"
    by (simp add: consts_defs)
  note r = InvalidRunLength_unreachable[of "0xFD" initGlobals
      "Magic @ [0, 0, 0, 1] @ [0, 0, 0, 1] @ [4, 0] @ [0xFD] @ [0, 0, 0, 0, 0, 0, 0, 1]" 62]
  from r h show ?thesis by blast
qed

text \<open>
  C9. Let the first \<open>k\<close> pixels of an image of Width * Height pixels be decoded, with no run
  pending, and let the next byte be a RUN op-code whose run length (b AND 0x3F) + 1 is
  greater than the Width * Height - k pixels that are left. Then the loops end without
  error; every pixel from index \<open>k\<close> on is a copy of the last pixel; the reader stands right
  behind the RUN byte, so nothing was read for the repetitions that were not used; their
  number is what is left in the run counter, which nothing looks at any more; and
  \<open>decodePixels\<close> goes on with the check of the end marker in that state.
\<close>

theorem run_overrun:
  assumes "4 * Width conf * Height conf < 2 ^ 63"
    and "steps k 0 (initState g r conf) = (None, s)" and "k < Width conf * Height conf"
    and "run s = 0" and "rd s = b # rest"
    and "b AND op2Mask = opRun" and "b \<noteq> opRgb" and "b \<noteq> opRgba"
    and "Width conf * Height conf - k < unat (b AND 0x3F) + 1"
  shows "\<exists>s'. imgLoop conf 0 (initState g r conf) = (None, s') \<and> rd s' = rest
           \<and> (\<forall>j. k \<le> j \<and> j < Width conf * Height conf \<longrightarrow>
                  pixAt s' (AddrPix (4 * j)) = pixAt s (lastp s))
           \<and> unat (run s') = unat (b AND 0x3F) + 1 - (Width conf * Height conf - k)
           \<and> decodePixels g r conf = checkEOF conf s'"
proof -
  define s0 where "s0 = initState g r conf"
  define N where "N = Width conf * Height conf"
  define m where "m = N - k - 1"
  have N: "N = k + Suc m" using assms(3) by (simp add: m_def N_def)
  have len0: "length (imgPix s0) = 4 * N" by (simp add: s0_def N_def initState_def)
  have inv: "loopInv (4 * k) s" using assms(2,3) by (rule loopInv_reached)
  have len: "length (imgPix s) = 4 * N"
    using steps_frame[OF assms(2)] len0 by (simp add: s0_def)
  let ?t = "s\<lparr>buf := b # drop 1 (buf s), rd := rest\<rparr>"
  have nb: "b AND op2Mask \<noteq> opIndex" "b AND op2Mask \<noteq> opDiff" "b AND op2Mask \<noteq> opLuma"
    using assms(6) by (simp_all add: consts_defs)
  have d: "decodePixel (4 * k) s = caseRun (4 * k) ?t"
    using decodePixel_op[OF assms(4,5), of "4 * k"] nb assms(6-8) by (simp add: Let_def)
  have tb: "buf ?t ! 0 AND op2Mask = opRun" "buf ?t ! 0 \<noteq> opRgb" "buf ?t ! 0 \<noteq> opRgba"
    "sep (lastp ?t) (4 * k)" "4 * k + 4 \<le> length (imgPix ?t)"
    using assms(6-8) loopInvD[OF inv] by simp_all
  obtain t1 where t1: "t1 = snd (caseRun (4 * k) ?t)" by simp
  note c = caseRun_run[OF tb, folded t1]
  have d1: "decodePixel (4 * k) s = (None, t1)"
    unfolding d using c(1) t1 by (cases "caseRun (4 * k) ?t") simp
  have f: "stepFrame (4 * k) s t1" using decodePixel_frame[of "4 * k" s] d1 by simp
  have keep: "pixAt t1 (lastp s) = pixAt s (lastp s)"
    by (rule frame_pixAt[OF f loopInvD(4)[OF inv]])
  have pk: "pixAt t1 (AddrPix (4 * k)) = pixAt s (lastp s)" using c(6) by (simp add: pixAt_def)
  have r1: "m \<le> unat (run t1)" using assms(9) c(3) by (simp add: m_def N_def)
  have s1: "sep (lastp t1) (4 * Suc k)"
    using sep_mono[OF loopInvD(4)[OF inv]] c(4) by (simp add: algebra_simps)
  have l1: "4 * (Suc k + m) \<le> length (imgPix t1)" using c(5) len N by simp
  from steps_run[OF r1 s1 l1] obtain s' where
    s': "steps m (Suc k) t1 = (None, s')" "rd s' = rd t1" "unat (run s') = unat (run t1) - m"
      "lastp s' = lastp t1"
      "\<And>j. Suc k \<le> j \<Longrightarrow> j < Suc k + m \<Longrightarrow> pixAt s' (AddrPix (4 * j)) = pixAt t1 (lastp t1)"
    by blast
  have below: "\<forall>j < 4 * k + 4. imgPix s' ! j = imgPix t1 ! j"
    using steps_frame[OF s'(1)] by simp
  have pix: "pixAt s' (AddrPix (4 * j)) = pixAt s (lastp s)" if "k \<le> j" "j < N" for j
  proof (cases "j = k")
    case True
    then show ?thesis using pixAt_below[OF below] pk by simp
  next
    case False
    then have "Suc k \<le> j" "j < Suc k + m" using that N by simp_all
    then show ?thesis using s'(5) c(4) keep by simp
  qed
  have "imgLoop conf 0 s0 = steps (k + Suc m) 0 s0"
    using N by (simp add: imgLoop_steps N_def mult.commute)
  also have "\<dots> = steps (Suc m) k s"
    using assms(2) by (simp only: steps_add s0_def) simp
  also have "\<dots> = (None, s')" using d1 s'(1) by simp
  finally have loop: "imgLoop conf 0 s0 = (None, s')" .
  have "decodePixels g r conf = checkEOF conf s'"
    using loop assms(1) by (simp add: decodePixels_def s0_def)
  moreover have "unat (run s') = unat (b AND 0x3F) + 1 - (N - k)"
    using s'(3) c(3) N by simp
  moreover have "rd s' = rest" using s'(2) c(2) by simp
  ultimately show ?thesis using loop pix unfolding s0_def N_def by blast
qed

text \<open>
  Witness for C9: a 2x1 image whose pixel stream is the single RUN op-code 0xC5, a run of 6,
  followed by the end marker. Both pixels are the start pixel, the reader stands at the end
  marker, and 4 repetitions are left over.
\<close>

theorem run_overrun_witness:
  "4 * Width \<lparr>Width = 2, Height = 1\<rparr> * Height \<lparr>Width = 2, Height = 1\<rparr> < (2::nat) ^ 63
   \<and> steps 0 0 (initState initGlobals [0xC5, 0, 0, 0, 0, 0, 0, 0, 1] \<lparr>Width = 2, Height = 1\<rparr>)
       = (None, initState initGlobals [0xC5, 0, 0, 0, 0, 0, 0, 0, 1] \<lparr>Width = 2, Height = 1\<rparr>)
   \<and> (0xC5 :: byte) AND op2Mask = opRun \<and> (0xC5 :: byte) \<noteq> opRgb \<and> (0xC5 :: byte) \<noteq> opRgba
   \<and> (2::nat) < unat ((0xC5 :: byte) AND 0x3F) + 1
   \<and> (\<exists>s'. imgLoop \<lparr>Width = 2, Height = 1\<rparr> 0
               (initState initGlobals [0xC5, 0, 0, 0, 0, 0, 0, 0, 1] \<lparr>Width = 2, Height = 1\<rparr>)
             = (None, s')
          \<and> rd s' = [0, 0, 0, 0, 0, 0, 0, 1]
          \<and> pixAt s' (AddrPix 0) = [0, 0, 0, 255] \<and> pixAt s' (AddrPix 4) = [0, 0, 0, 255]
          \<and> unat (run s') = 4
          \<and> decodePixels initGlobals [0xC5, 0, 0, 0, 0, 0, 0, 0, 1] \<lparr>Width = 2, Height = 1\<rparr>
               = checkEOF \<lparr>Width = 2, Height = 1\<rparr> s')"
proof -
  let ?conf = "\<lparr>Width = 2, Height = 1\<rparr>"
  let ?s = "initState initGlobals [0xC5, 0, 0, 0, 0, 0, 0, 0, 1] ?conf"
  have h1: "4 * Width ?conf * Height ?conf < (2::nat) ^ 63" by simp
  have h2: "steps 0 0 ?s = (None, ?s)" by simp
  have h3: "0 < Width ?conf * Height ?conf" by simp
  have h4: "run ?s = 0" and h5: "rd ?s = 0xC5 # [0, 0, 0, 0, 0, 0, 0, 1]"
    by (simp_all add: initState_def)
  have h6: "(0xC5 :: byte) AND op2Mask = opRun" and h7: "(0xC5 :: byte) \<noteq> opRgb"
    and h8: "(0xC5 :: byte) \<noteq> opRgba" by (simp_all add: consts_defs)
  have h9': "(2::nat) < unat ((0xC5 :: byte) AND 0x3F) + 1" by simp
  have h9: "Width ?conf * Height ?conf - 0 < unat ((0xC5 :: byte) AND 0x3F) + 1" by simp
  have p: "pixAt ?s (lastp ?s) = [0, 0, 0, 255]"
    by (simp add: initState_def initGlobals_def pixAt_def)
  from run_overrun[OF h1 h2 h3 h4 h5 h6 h7 h8 h9] obtain s' where
    s': "imgLoop ?conf 0 ?s = (None, s')" "rd s' = [0, 0, 0, 0, 0, 0, 0, 1]"
      "\<forall>j. 0 \<le> j \<and> j < Width ?conf * Height ?conf \<longrightarrow>
            pixAt s' (AddrPix (4 * j)) = pixAt ?s (lastp ?s)"
      "unat (run s') = unat ((0xC5 :: byte) AND 0x3F) + 1 - (Width ?conf * Height ?conf - 0)"
      "decodePixels initGlobals [0xC5, 0, 0, 0, 0, 0, 0, 0, 1] ?conf = checkEOF ?conf s'"
    by blast
  have p0: "pixAt s' (AddrPix 0) = [0, 0, 0, 255]"
    using s'(3)[rule_format, of 0] p by simp
  have p1: "pixAt s' (AddrPix 4) = [0, 0, 0, 255]"
    using s'(3)[rule_format, of 1] p by simp
  have r4: "unat (run s') = 4" using s'(4) by simp
  have "\<exists>s'. imgLoop ?conf 0 ?s = (None, s') \<and> rd s' = [0, 0, 0, 0, 0, 0, 0, 1]
          \<and> pixAt s' (AddrPix 0) = [0, 0, 0, 255] \<and> pixAt s' (AddrPix 4) = [0, 0, 0, 255]
          \<and> unat (run s') = 4
          \<and> decodePixels initGlobals [0xC5, 0, 0, 0, 0, 0, 0, 0, 1] ?conf = checkEOF ?conf s'"
    using s'(1,2,5) p0 p1 r4 by blast
  with h1 h2 h6 h7 h8 h9' show ?thesis by (intro conjI)
qed



end
